theory Spec2Isabelle
  imports Complex_Main
begin

section \<open>Data model\<close>

text \<open>
  Modelled from the spec: the \<open>CoverTree\<close> class itself (cover_tree.hpp) is not among the
  sources; the traverser only uses its interface \<open>Point()\<close>, \<open>Scale()\<close>,
  \<open>NumChildren()\<close> and \<open>Child(i)\<close> (spec section 6). A node is its point index, its scale
  and the ordered sequence of its children; child 0 is the self-child. Tree nodes are never
  mutated by the traversal, so a pointer to a node is modelled by the node.
\<close>

datatype CoverTree = CoverTree (Point: nat) (Scale: int) (children: "CoverTree list")

definition NumChildren :: "CoverTree \<Rightarrow> nat" where
  "NumChildren t = length (children t)"

text \<open>
  The leaf sentinel of the scale, \<open>INT_MIN\<close> of a 32-bit \<open>int\<close>. The traverser compares
  scales and never computes with them, so a scale is an integer.
\<close>

definition INT_MIN :: int where
  "INT_MIN = - 2147483648"

text \<open>
  The prune sentinel \<open>DBL_MAX\<close>. Scores and base cases are \<open>double\<close>s that the traverser
  only stores, compares with \<open>DBL_MAX\<close> and orders by \<open><\<close>; they are modelled as reals.
\<close>

definition DBL_MAX :: real where
  "DBL_MAX = (2 - 1 / 2 ^ 52) * 2 ^ 1023"

text \<open>The struct \<open>DualCoverTreeMapEntry\<close> (lines 18-36): a candidate frame.\<close>

record DualCoverTreeMapEntry =
  referenceNode :: CoverTree
  score :: real
  referenceIndex :: nat
  queryIndex :: nat
  baseCase :: real

text \<open>
  The frontier \<open>std::map<int, std::vector<MapEntryType> >\<close>: an association list kept in
  ascending order of its keys, as the map's iteration order is. \<open>rbegin\<close> is the last
  pair, \<open>begin\<close> the first one.
\<close>

type_synonym refmap = "(int \<times> DualCoverTreeMapEntry list) list"

fun map_set :: "int \<Rightarrow> DualCoverTreeMapEntry list \<Rightarrow> refmap \<Rightarrow> refmap" where
  "map_set k v [] = [(k, v)]"
| "map_set k v ((k', v') # m) =
     (if k < k' then (k, v) # (k', v') # m
      else if k = k' then (k, v) # m
      else (k', v') # map_set k v m)"

text \<open>The vector that \<open>m[k]\<close> refers to; \<open>operator[]\<close> inserts an empty one for a new key.\<close>

definition map_at :: "int \<Rightarrow> refmap \<Rightarrow> DualCoverTreeMapEntry list" where
  "map_at k m = (case map_of m k of None \<Rightarrow> [] | Some v \<Rightarrow> v)"

definition map_touch :: "int \<Rightarrow> refmap \<Rightarrow> refmap" where
  "map_touch k m = (case map_of m k of None \<Rightarrow> map_set k [] m | Some v \<Rightarrow> m)"

text \<open>\<open>m[k].push_back(e)\<close>.\<close>

definition map_push :: "int \<Rightarrow> DualCoverTreeMapEntry \<Rightarrow> refmap \<Rightarrow> refmap" where
  "map_push k e m = map_set k (map_at k m @ [e]) m"

text \<open>\<open>m.erase(k)\<close>.\<close>

definition map_erase :: "int \<Rightarrow> refmap \<Rightarrow> refmap" where
  "map_erase k m = filter (\<lambda>p. fst p \<noteq> k) m"

definition keys :: "refmap \<Rightarrow> int list" where
  "keys m = map fst m"

text \<open>The invariant of \<open>std::map\<close>: keys strictly ascending (hence distinct).\<close>

definition wf_map :: "refmap \<Rightarrow> bool" where
  "wf_map m = sorted_wrt (<) (keys m)"

text \<open>
  Undefined behaviour and failed assertions of the C++ are values: dereferencing
  \<open>rbegin()\<close> or \<open>begin()\<close> of an empty map, \<open>Child(i)\<close> with \<open>i\<close> out of range,
  decrementing \<open>begin()\<close>, a failed \<open>Log::Assert\<close>, and dereferencing a tree pointer that
  is null or was never initialised.
\<close>

datatype error =
  EmptyMapDeref | ChildOutOfRange | DecrementBegin | AssertFailed | NullDeref | UninitialisedDeref

section \<open>The Scoring Policy and the traverser's state\<close>

text \<open>
  The rule object (\<open>RuleType\<close>, a template parameter): its three operations may read and
  write the policy's own state \<open>'s\<close> (result lists, bounds).
\<close>

record 's rules =
  BaseCase :: "nat \<Rightarrow> nat \<Rightarrow> 's \<Rightarrow> real \<times> 's"
  Score :: "CoverTree \<Rightarrow> CoverTree \<Rightarrow> real \<Rightarrow> 's \<Rightarrow> real \<times> 's"
  Rescore :: "CoverTree \<Rightarrow> CoverTree \<Rightarrow> real \<Rightarrow> 's \<Rightarrow> real \<times> 's"

datatype call =
    BaseCaseCall nat nat
  | ScoreCall CoverTree CoverTree real
  | RescoreCall CoverTree CoverTree real

text \<open>
  The traverser's state: the policy's state, the counter \<open>numPrunes\<close> (a \<open>size_t\<close>; no
  property below depends on its wrap-around, so it is a natural number) and, as
  instrumentation, the sequence of calls made into the policy.
\<close>

record 's trav =
  rstate :: 's
  numPrunes :: nat
  calls :: "call list"

definition callBaseCase :: "'s rules \<Rightarrow> nat \<Rightarrow> nat \<Rightarrow> 's trav \<Rightarrow> real \<times> 's trav" where
  "callBaseCase R qi ri st =
     (case BaseCase R qi ri (rstate st) of
        (v, s') \<Rightarrow> (v, st\<lparr>rstate := s', calls := calls st @ [BaseCaseCall qi ri]\<rparr>))"

definition callScore :: "'s rules \<Rightarrow> CoverTree \<Rightarrow> CoverTree \<Rightarrow> real \<Rightarrow> 's trav \<Rightarrow> real \<times> 's trav" where
  "callScore R q r b st =
     (case Score R q r b (rstate st) of
        (v, s') \<Rightarrow> (v, st\<lparr>rstate := s', calls := calls st @ [ScoreCall q r b]\<rparr>))"

definition callRescore :: "'s rules \<Rightarrow> CoverTree \<Rightarrow> CoverTree \<Rightarrow> real \<Rightarrow> 's trav \<Rightarrow> real \<times> 's trav" where
  "callRescore R q r old st =
     (case Rescore R q r old (rstate st) of
        (v, s') \<Rightarrow> (v, st\<lparr>rstate := s', calls := calls st @ [RescoreCall q r old]\<rparr>))"

definition prune :: "nat \<Rightarrow> 's trav \<Rightarrow> 's trav" where
  "prune n st = st\<lparr>numPrunes := numPrunes st + n\<rparr>"

section \<open>ReferenceRecursion (lines 379-532)\<close>

text \<open>
  The loop over the non-self children of the reference node (lines 480-525): a fresh
  \<open>BaseCase\<close> for each child, then its \<open>Score\<close>; a pruned child is counted, any other is
  pushed on the bucket of its own scale.
\<close>

fun refrec_children ::
  "'s rules \<Rightarrow> CoverTree \<Rightarrow> CoverTree list \<Rightarrow> refmap \<Rightarrow> 's trav \<Rightarrow> refmap \<times> 's trav" where
  "refrec_children R q [] m st = (m, st)"
| "refrec_children R q (c # cs) m st =
     (case callBaseCase R (Point q) (Point c) st of (bc, st1) \<Rightarrow>
       (case callScore R q c bc st1 of (childScore, st2) \<Rightarrow>
          if childScore = DBL_MAX then refrec_children R q cs m (prune 1 st2)
          else refrec_children R q cs
                 (map_push (Scale c)
                    \<lparr>referenceNode = c, score = childScore, referenceIndex = Point c,
                     queryIndex = Point q, baseCase = bc\<rparr> m) st2))"

text \<open>The body of the loop over the frames of the coarsest bucket (lines 409-525).\<close>

definition refrec_frame ::
  "'s rules \<Rightarrow> CoverTree \<Rightarrow> DualCoverTreeMapEntry \<Rightarrow> refmap \<Rightarrow> 's trav
     \<Rightarrow> error + refmap \<times> 's trav" where
  "refrec_frame R q frame m st =
     (let refNode = referenceNode frame;
          refPoint = Point refNode;
          queryPoint = Point q in
      case callRescore R q refNode (score frame) st of (rescore, st1) \<Rightarrow>
        if rescore = DBL_MAX then Inr (m, prune 1 st1)
        else
          (case (if refPoint \<noteq> referenceIndex frame \<or> queryPoint \<noteq> queryIndex frame
                 then callBaseCase R queryPoint refPoint st1
                 else (baseCase frame, st1)) of (bc, st2) \<Rightarrow>
            (case callScore R q refNode bc st2 of (childScore, st3) \<Rightarrow>
               if childScore = DBL_MAX then Inr (m, prune (NumChildren refNode) st3)
               else
                 (case children refNode of
                    [] \<Rightarrow> Inl ChildOutOfRange
                  | c0 # cs \<Rightarrow>
                      (case callScore R q c0 bc st3 of (selfScore, st4) \<Rightarrow>
                         if selfScore \<noteq> DBL_MAX
                         then Inr (refrec_children R q cs
                                (map_push (Scale c0)
                                   \<lparr>referenceNode = c0, score = selfScore,
                                    referenceIndex = refPoint, queryIndex = Point q,
                                    baseCase = bc\<rparr> m) st4)
                         else Inr (refrec_children R q cs m (prune 1 st4)))))))"

text \<open>
  The loop over the frames of the bucket (lines 407-526) reads \<open>scaleVector.size()\<close> anew
  in every round, and a child whose scale is the bucket's own is pushed on the very vector
  the loop runs over. The model therefore reads the bucket from the map in every round.
  The loop ends because every frame pushed holds a child of the frame that pushed it; the
  lemmas below measure that.
\<close>

lemma map_of_map_set: "map_of (map_set k v m) = (map_of m)(k \<mapsto> v)"
  by (induction m) (auto simp: fun_eq_iff)

lemma map_at_map_set: "map_at t (map_set k v m) = (if t = k then v else map_at t m)"
  by (simp add: map_at_def map_of_map_set)

lemma map_at_map_push:
  "map_at t (map_push k e m) = (if t = k then map_at t m @ [e] else map_at t m)"
  by (simp add: map_push_def map_at_map_set)

definition nodes_size :: "DualCoverTreeMapEntry list \<Rightarrow> nat" where
  "nodes_size fs = sum_list (map (\<lambda>f. size (referenceNode f)) fs)"

lemma nodes_size_append [simp]: "nodes_size (xs @ ys) = nodes_size xs + nodes_size ys"
  by (simp add: nodes_size_def)

lemma nodes_size_Nil [simp]: "nodes_size [] = 0"
  by (simp add: nodes_size_def)

lemma nodes_size_Cons [simp]: "nodes_size (x # xs) = size (referenceNode x) + nodes_size xs"
  by (simp add: nodes_size_def)

lemma refrec_children_bucket:
  "\<exists>fs. map_at t (fst (refrec_children R q cs m st)) = map_at t m @ fs
        \<and> nodes_size fs \<le> sum_list (map size cs)"
proof (induction cs arbitrary: m st)
  case Nil
  then show ?case by simp
next
  case (Cons c cs)
  show ?case
  proof (cases "callBaseCase R (Point q) (Point c) st")
    case (Pair bc st1)
    show ?thesis
    proof (cases "callScore R q c bc st1")
      case sc: (Pair childScore st2)
      show ?thesis
      proof (cases "childScore = DBL_MAX")
        case True
        from Cons.IH [of m "prune 1 st2"] obtain fs where
          "map_at t (fst (refrec_children R q cs m (prune 1 st2))) = map_at t m @ fs"
          "nodes_size fs \<le> sum_list (map size cs)" by blast
        with Pair sc True show ?thesis by auto
      next
        case False
        define e where "e = \<lparr>referenceNode = c, score = childScore, referenceIndex = Point c,
                   queryIndex = Point q, baseCase = bc\<rparr>"
        from Cons.IH [of "map_push (Scale c) e m" st2] obtain fs where
          fs: "map_at t (fst (refrec_children R q cs (map_push (Scale c) e m) st2))
             = map_at t (map_push (Scale c) e m) @ fs"
          "nodes_size fs \<le> sum_list (map size cs)" by blast
        have ne: "nodes_size [e] = size c" by (simp add: nodes_size_def e_def)
        show ?thesis
        proof (cases "t = Scale c")
          case True
          with fs have "map_at t (fst (refrec_children R q cs (map_push (Scale c) e m) st2))
             = map_at t m @ ([e] @ fs)" by (simp add: map_at_map_push)
          moreover have "nodes_size ([e] @ fs) \<le> sum_list (map size (c # cs))"
            using fs(2) by (simp add: e_def)
          ultimately show ?thesis using Pair sc False unfolding e_def by (auto simp del: append.simps)
        next
          case F: False
          with fs have "map_at t (fst (refrec_children R q cs (map_push (Scale c) e m) st2))
             = map_at t m @ fs" by (simp add: map_at_map_push)
          moreover have "nodes_size fs \<le> sum_list (map size (c # cs))"
            using fs(2) by simp
          ultimately show ?thesis using Pair sc False unfolding e_def by auto
        qed
      qed
    qed
  qed
qed

lemma children_size: "sum_list (map size (children n)) < size n"
  by (cases n) (simp add: size_list_conv_sum_list)

lemma refrec_children_lt:
  assumes "sum_list (map size cs) < n"
  shows "\<exists>fs. map_at t (fst (refrec_children R q cs m0 st0)) = map_at t m0 @ fs
           \<and> nodes_size fs < n"
  using refrec_children_bucket [of t R q cs m0 st0] assms by (meson le_less_trans)

lemma refrec_children_push_lt:
  assumes lt: "size (referenceNode e) + sum_list (map size cs) < n"
  shows "\<exists>fs. map_at t (fst (refrec_children R q cs (map_push k e m0) st0)) = map_at t m0 @ fs
           \<and> nodes_size fs < n"
proof -
  from refrec_children_bucket [of t R q cs "map_push k e m0" st0] obtain fs where
    fs: "map_at t (fst (refrec_children R q cs (map_push k e m0) st0))
           = map_at t (map_push k e m0) @ fs" "nodes_size fs \<le> sum_list (map size cs)"
    by blast
  show ?thesis
  proof (cases "t = k")
    case True
    with fs have "map_at t (fst (refrec_children R q cs (map_push k e m0) st0))
           = map_at t m0 @ (e # fs)" by (simp add: map_at_map_push)
    moreover have "nodes_size (e # fs) < n" using fs(2) lt by simp
    ultimately show ?thesis by blast
  next
    case False
    with fs have "map_at t (fst (refrec_children R q cs (map_push k e m0) st0))
           = map_at t m0 @ fs" by (simp add: map_at_map_push)
    moreover have "nodes_size fs < n" using fs(2) lt by simp
    ultimately show ?thesis by blast
  qed
qed

lemma refrec_children_eq_lt:
  assumes "refrec_children R q cs m0 st0 = (m', st')" "sum_list (map size cs) < n"
  shows "\<exists>fs. map_at t m' = map_at t m0 @ fs \<and> nodes_size fs < n"
  using refrec_children_lt [OF assms(2), of t R q m0 st0] assms(1) by simp

lemma refrec_children_push_eq_lt:
  assumes "refrec_children R q cs (map_push k e m0) st0 = (m', st')"
    "size (referenceNode e) + sum_list (map size cs) < n"
  shows "\<exists>fs. map_at t m' = map_at t m0 @ fs \<and> nodes_size fs < n"
  using refrec_children_push_lt [OF assms(2), of t R q k m0 st0] assms(1) by simp

lemma refrec_frame_bucket:
  assumes "refrec_frame R q f m st = Inr (m', st')"
  shows "\<exists>fs. map_at t m' = map_at t m @ fs \<and> nodes_size fs < size (referenceNode f)"
proof -
  have pos: "0 < size (referenceNode f)" by (cases "referenceNode f") simp
  have kids: "\<And>c0 cs. children (referenceNode f) = c0 # cs \<Longrightarrow>
      size c0 + sum_list (map size cs) < size (referenceNode f)"
    using children_size [of "referenceNode f"] by simp
  have kids': "\<And>c0 cs. children (referenceNode f) = c0 # cs \<Longrightarrow>
      sum_list (map size cs) < size (referenceNode f)"
    using kids by fastforce
  show ?thesis
    using assms pos
    apply (simp add: refrec_frame_def Let_def split: prod.splits if_splits list.splits)
       apply (erule refrec_children_push_eq_lt, simp add: kids)
      apply (erule refrec_children_eq_lt, simp add: kids')
     apply (erule refrec_children_push_eq_lt, simp add: kids)
    apply (erule refrec_children_eq_lt, simp add: kids')
    done
qed

function refrec_frames ::
  "'s rules \<Rightarrow> CoverTree \<Rightarrow> int \<Rightarrow> nat \<Rightarrow> refmap \<Rightarrow> 's trav \<Rightarrow> error + refmap \<times> 's trav" where
  "refrec_frames R q t i m st =
     (if i < length (map_at t m) then
        (case refrec_frame R q (map_at t m ! i) m st of
           Inl e \<Rightarrow> Inl e
         | Inr (m', st') \<Rightarrow> refrec_frames R q t (i + 1) m' st')
      else Inr (m, st))"
  by pat_completeness auto
termination
proof (relation "measure (\<lambda>(R, q, t, i, m, st). nodes_size (drop i (map_at t m)))")
  show "wf (measure (\<lambda>(R, q, t, i, m, st). nodes_size (drop i (map_at t m))))" by simp
next
  fix R :: "'s rules" and q t i m and st :: "'s trav" and x2 m' st'
  assume i: "i < length (map_at t m)"
    and r: "refrec_frame R q (map_at t m ! i) m st = Inr x2" and x: "(m', st') = x2"
  from r x have "refrec_frame R q (map_at t m ! i) m st = Inr (m', st')" by simp
  from refrec_frame_bucket [OF this, of t] obtain fs where
    fs: "map_at t m' = map_at t m @ fs" "nodes_size fs < size (referenceNode (map_at t m ! i))"
    by blast
  have "drop i (map_at t m) = (map_at t m ! i) # drop (i + 1) (map_at t m)"
    using i by (simp add: Cons_nth_drop_Suc)
  then have "nodes_size (drop i (map_at t m))
      = size (referenceNode (map_at t m ! i)) + nodes_size (drop (i + 1) (map_at t m))"
    by simp
  moreover have "drop (i + 1) (map_at t m') = drop (i + 1) (map_at t m) @ fs"
    using i fs(1) by simp
  ultimately have "nodes_size (drop (i + 1) (map_at t m')) < nodes_size (drop i (map_at t m))"
    using fs(2) by simp
  then show "((R, q, t, i + 1, m', st'), (R, q, t, i, m, st))
      \<in> measure (\<lambda>(R, q, t, i, m, st). nodes_size (drop i (map_at t m)))"
    by simp
qed

declare refrec_frames.simps [simp del]

text \<open>\<open>*referenceMap.rbegin()\<close>: the pair of the greatest key; none in an empty map.\<close>

definition rbegin :: "refmap \<Rightarrow> (int \<times> DualCoverTreeMapEntry list) option" where
  "rbegin m = (if m = [] then None else Some (last m))"

text \<open>
  \<open>ReferenceRecursion\<close> (lines 390-530). Reading \<open>rbegin()\<close> of an empty map is the error
  \<open>EmptyMapDeref\<close>. \<open>std::sort\<close> orders the bucket by score and leaves the order of equal
  scores open; the model takes the stable order. After the frames, the bucket of the
  greatest key then present is erased. On a tree whose children have greater scales than
  their parents the loop need not end, so the function is partial: \<open>None\<close> is a run that
  does not return.
\<close>

partial_function (option) ReferenceRecursion ::
  "'s rules \<Rightarrow> CoverTree \<Rightarrow> refmap \<Rightarrow> 's trav \<Rightarrow> (error + refmap \<times> 's trav) option" where
  "ReferenceRecursion R q m st =
     (case rbegin m of
        None \<Rightarrow> Some (Inl EmptyMapDeref)
      | Some (tk, vec) \<Rightarrow>
          if tk > Scale q then
            if Scale q = INT_MIN \<and> tk = INT_MIN then Some (Inr (m, st))
            else
              (case refrec_frames R q tk 0 (map_set tk (sort_key score vec) m) st of
                 Inl e \<Rightarrow> Some (Inl e)
               | Inr (m2, st2) \<Rightarrow>
                   (case rbegin m2 of
                      None \<Rightarrow> Some (Inl EmptyMapDeref)
                    | Some (top2, vec2) \<Rightarrow> ReferenceRecursion R q (map_erase top2 m2) st2))
          else Some (Inr (m, st)))"

section \<open>PruneMap (lines 175-277)\<close>

text \<open>
  The loop over the frames of one scale (lines 208-267); \<open>new\<close> is
  \<open>newScaleVector\<close>, the vector \<open>childMap[thisScale]\<close>.
\<close>

fun prunemap_frames ::
  "'s rules \<Rightarrow> CoverTree \<Rightarrow> DualCoverTreeMapEntry list \<Rightarrow> DualCoverTreeMapEntry list
     \<Rightarrow> 's trav \<Rightarrow> DualCoverTreeMapEntry list \<times> 's trav" where
  "prunemap_frames R c [] new st = (new, st)"
| "prunemap_frames R c (frame # rest) new st =
     (let refNode = referenceNode frame in
      case callRescore R c refNode (score frame) st of (rescore, st1) \<Rightarrow>
        if rescore = DBL_MAX then prunemap_frames R c rest new (prune 1 st1)
        else
          (case callBaseCase R (Point c) (Point refNode) st1 of (bc, st2) \<Rightarrow>
            (case callScore R c refNode bc st2 of (sc, st3) \<Rightarrow>
               if sc = DBL_MAX then prunemap_frames R c rest new (prune 1 st3)
               else prunemap_frames R c rest
                      (new @ [frame\<lparr>score := sc, baseCase := bc,
                                     referenceIndex := Point refNode,
                                     queryIndex := Point c\<rparr>]) st3)))"

text \<open>
  The loop over the scales, from the coarsest down to the leaf sentinel (lines 197-274);
  the list is what the reverse iterator has yet to visit.
\<close>

fun prunemap_scales ::
  "'s rules \<Rightarrow> CoverTree \<Rightarrow> refmap \<Rightarrow> refmap \<Rightarrow> 's trav \<Rightarrow> refmap \<times> 's trav" where
  "prunemap_scales R c [] childMap st = (childMap, st)"
| "prunemap_scales R c ((thisScale, scaleVector) # rest) childMap st =
     (if thisScale = INT_MIN then (childMap, st)
      else
        (let cm1 = map_touch thisScale childMap in
         case prunemap_frames R c scaleVector (map_at thisScale cm1) st of (new, st') \<Rightarrow>
           prunemap_scales R c rest
             (if new = [] then map_erase thisScale cm1 else map_set thisScale new cm1) st'))"

text \<open>
  \<open>PruneMap\<close>. The last statement, \<open>childMap[INT_MIN] = referenceMap[INT_MIN]\<close>, applies
  \<open>operator[]\<close> to both maps, so the parent's map is returned too. The parameter
  \<open>queryNode\<close> is unused in the source.
\<close>

definition PruneMap ::
  "'s rules \<Rightarrow> CoverTree \<Rightarrow> CoverTree \<Rightarrow> refmap \<Rightarrow> refmap \<Rightarrow> 's trav
     \<Rightarrow> refmap \<times> refmap \<times> 's trav" where
  "PruneMap R queryNode candidateQueryNode referenceMap childMap st =
     (if referenceMap = [] then (referenceMap, childMap, st)
      else
        (case prunemap_scales R candidateQueryNode (rev referenceMap) childMap st of
           (cm, st') \<Rightarrow>
             (map_touch INT_MIN referenceMap,
              map_set INT_MIN (map_at INT_MIN referenceMap) cm, st')))"

section \<open>PruneMapForSelfChild (lines 279-377)\<close>

text \<open>The loop over the frames of one scale (lines 312-365).\<close>

fun selfchild_frames ::
  "'s rules \<Rightarrow> CoverTree \<Rightarrow> DualCoverTreeMapEntry list \<Rightarrow> DualCoverTreeMapEntry list
     \<Rightarrow> 's trav \<Rightarrow> DualCoverTreeMapEntry list \<times> 's trav" where
  "selfchild_frames R c [] new st = (new, st)"
| "selfchild_frames R c (frame # rest) new st =
     (let refNode = referenceNode frame in
      case (if referenceIndex frame \<noteq> Point refNode \<or> queryIndex frame \<noteq> Point c
            then (case callRescore R c refNode (score frame) st of (rescore, st1) \<Rightarrow>
                    if rescore = DBL_MAX then Inl (prune 1 st1)
                    else Inr (callBaseCase R (Point c) (Point refNode) st1))
            else Inr (baseCase frame, st)) of
        Inl st1 \<Rightarrow> selfchild_frames R c rest new st1
      | Inr (bc, st2) \<Rightarrow>
          (case callScore R c refNode bc st2 of (sc, st3) \<Rightarrow>
             if sc = DBL_MAX then selfchild_frames R c rest new (prune 1 st3)
             else selfchild_frames R c rest
                    (new @ [frame\<lparr>score := sc, baseCase := bc,
                                   queryIndex := Point c,
                                   referenceIndex := Point refNode\<rparr>]) st3))"

text \<open>
  The loop over the scales erases from the map it iterates over. A
  \<open>std::reverse_iterator\<close> holds a base iterator and designates the element before it;
  \<open>rbegin()\<close> has the base \<open>end()\<close>, and \<open>rend()\<close> the base \<open>begin()\<close>. The model keeps
  the base: \<open>None\<close> for \<open>end()\<close>, \<open>Some k\<close> for the node of key \<open>k\<close>. Erasing the
  designated element leaves the base valid, so that the iterator then designates the next
  smaller key; \<open>++it\<close> moves the base to the designated element, and on \<open>rend()\<close> it
  decrements \<open>begin()\<close>, which is undefined (\<open>DecrementBegin\<close>).
\<close>

definition before :: "int option \<Rightarrow> int \<Rightarrow> bool" where
  "before b k = (case b of None \<Rightarrow> True | Some k' \<Rightarrow> k < k')"

definition rdesig :: "int option \<Rightarrow> refmap \<Rightarrow> (int \<times> DualCoverTreeMapEntry list) option" where
  "rdesig b m = (case filter (\<lambda>p. before b (fst p)) m of [] \<Rightarrow> None | x # xs \<Rightarrow> Some (last (x # xs)))"

text \<open>The loop ends: the keys before the base become fewer in every round.\<close>

lemma rdesig_SomeD:
  assumes "rdesig b m = Some (k, v)"
  shows "(k, v) \<in> set m \<and> before b k"
proof -
  from assms obtain x xs where xs: "filter (\<lambda>p. before b (fst p)) m = x # xs"
    and l: "last (x # xs) = (k, v)"
    by (auto simp: rdesig_def split: list.splits)
  have "last (x # xs) \<in> set (x # xs)" by (rule last_in_set) simp
  with xs l have "(k, v) \<in> set (filter (\<lambda>p. before b (fst p)) m)" by simp
  then show ?thesis by simp
qed

lemma filter_map_set_below:
  "filter (\<lambda>p. fst p < k) (map_set k v m) = filter (\<lambda>p. fst p < k) m"
  by (induction m) auto

lemma length_filter_less':
  assumes "x \<in> set xs" "Q x" "\<not> P x" "\<And>y. P y \<Longrightarrow> Q y"
  shows "length (filter P xs) < length (filter Q xs)"
proof -
  have "filter P xs = filter P (filter Q xs)" using assms(4) by (simp, metis)
  moreover have "length (filter P (filter Q xs)) < length (filter Q xs)"
    by (rule length_filter_less [of x]) (use assms in auto)
  ultimately show ?thesis by simp
qed

function selfchild_scales ::
  "'s rules \<Rightarrow> CoverTree \<Rightarrow> int option \<Rightarrow> refmap \<Rightarrow> 's trav \<Rightarrow> error + refmap \<times> 's trav" where
  "selfchild_scales R c b m st =
     (case rdesig b m of
        None \<Rightarrow> Inr (m, st)
      | Some (k, scaleVector) \<Rightarrow>
          if k = INT_MIN then Inr (m, st)
          else
            (case selfchild_frames R c scaleVector [] st of (new, st') \<Rightarrow>
               if new = [] then
                 (if map_erase k m = [] then Inr (map_erase k m, st')
                  else
                    (case rdesig b (map_erase k m) of
                       None \<Rightarrow> Inl DecrementBegin
                     | Some (k', v') \<Rightarrow> selfchild_scales R c (Some k') (map_erase k m) st'))
               else selfchild_scales R c (Some k) (map_set k new m) st'))"
  by pat_completeness auto
termination
proof (relation "measure (\<lambda>(R, c, b, m, st). length (filter (\<lambda>p. before b (fst p)) m))")
  show "wf (measure (\<lambda>(R, c, b, m, st). length (filter (\<lambda>p. before b (fst p)) m)))" by simp
next
  fix R :: "'s rules" and c b m and st :: "'s trav" and x2 k scaleVector x y new st' x2a k' v'
  assume d: "rdesig b m = Some x2" and x2: "(k, scaleVector) = x2"
    and d': "rdesig b (map_erase k m) = Some x2a" and x2a: "(k', v') = x2a"
  from d' x2a have "(k', v') \<in> set (map_erase k m) \<and> before b k'"
    using rdesig_SomeD [of b "map_erase k m" k' v'] by simp
  then have in_m: "(k', v') \<in> set m" and bk: "before b k'" by (auto simp: map_erase_def)
  have "length (filter (\<lambda>p. fst p < k') (map_erase k m)) \<le> length (filter (\<lambda>p. fst p < k') m)"
    unfolding map_erase_def by (induction m) auto
  also have "\<dots> < length (filter (\<lambda>p. before b (fst p)) m)"
    by (rule length_filter_less' [of "(k', v')"]) (use in_m bk in \<open>auto simp: before_def split: option.splits\<close>)
  finally show "((R, c, Some k', map_erase k m, st'), (R, c, b, m, st))
      \<in> measure (\<lambda>(R, c, b, m, st). length (filter (\<lambda>p. before b (fst p)) m))"
    by (simp add: before_def)
next
  fix R :: "'s rules" and c b m and st :: "'s trav" and x2 k scaleVector x y new st'
  assume d: "rdesig b m = Some x2" and x2: "(k, scaleVector) = x2"
  from d x2 have in_m: "(k, scaleVector) \<in> set m" and bk: "before b k"
    using rdesig_SomeD [of b m k scaleVector] by auto
  have "length (filter (\<lambda>p. fst p < k) (map_set k new m)) = length (filter (\<lambda>p. fst p < k) m)"
    by (simp add: filter_map_set_below)
  also have "\<dots> < length (filter (\<lambda>p. before b (fst p)) m)"
    by (rule length_filter_less' [of "(k, scaleVector)"]) (use in_m bk in \<open>auto simp: before_def split: option.splits\<close>)
  finally show "((R, c, Some k, map_set k new m, st'), (R, c, b, m, st))
      \<in> measure (\<lambda>(R, c, b, m, st). length (filter (\<lambda>p. before b (fst p)) m))"
    by (simp add: before_def)
qed

declare selfchild_scales.simps [simp del]

definition PruneMapForSelfChild ::
  "'s rules \<Rightarrow> CoverTree \<Rightarrow> refmap \<Rightarrow> 's trav \<Rightarrow> error + refmap \<times> 's trav" where
  "PruneMapForSelfChild R candidateQueryNode referenceMap st =
     (if referenceMap = [] then Inr (referenceMap, st)
      else selfchild_scales R candidateQueryNode None referenceMap st)"

section \<open>Traverse (lines 46-173)\<close>

text \<open>The base cases at leaf scope (lines 134-172).\<close>

fun leaf_frames :: "'s rules \<Rightarrow> CoverTree \<Rightarrow> DualCoverTreeMapEntry list \<Rightarrow> 's trav \<Rightarrow> 's trav" where
  "leaf_frames R q [] st = st"
| "leaf_frames R q (frame # rest) st =
     (let refNode = referenceNode frame in
      if referenceIndex frame = Point refNode \<and> queryIndex frame = Point q
      then leaf_frames R q rest (prune 1 st)
      else
        (case callRescore R q refNode (score frame) st of (rescore, st1) \<Rightarrow>
           if rescore = DBL_MAX then leaf_frames R q rest (prune 1 st1)
           else leaf_frames R q rest (snd (callBaseCase R (Point q) (Point refNode) st1))))"

text \<open>\<open>*referenceMap.begin()\<close>: the pair of the least key.\<close>

definition begin_pair :: "refmap \<Rightarrow> (int \<times> DualCoverTreeMapEntry list) option" where
  "begin_pair m = (case m of [] \<Rightarrow> None | p # ps \<Rightarrow> Some p)"

lemma tl_children_size: "sum_list (map size (tl (children q))) < size q"
proof -
  have "sum_list (map size (tl (children q))) \<le> sum_list (map size (children q))"
    by (cases "children q") simp_all
  with children_size [of q] show ?thesis by simp
qed

lemma size_CoverTree_pos: "0 < size (t :: CoverTree)"
  by (cases t) simp

lemma child_size: "children q = c0 # cs \<Longrightarrow> size c0 < size q"
  using children_size [of q] by simp

text \<open>
  The map-based \<open>Traverse\<close> (lines 74-173) and its loop over the non-self children of the
  query node (lines 103-113), each of which gets a fresh \<open>childMap\<close>. A query node that is
  not a leaf and has no child makes \<open>Child(0)\<close> fail. \<open>Log::Assert\<close> is taken to fail
  when its condition is false. The map is not read after the recursion into the
  self-child, so only the state is returned.
\<close>

function Traverse_map ::
    "'s rules \<Rightarrow> CoverTree \<Rightarrow> refmap \<Rightarrow> 's trav \<Rightarrow> (error + 's trav) option"
  and Traverse_nonself ::
    "'s rules \<Rightarrow> CoverTree \<Rightarrow> CoverTree list \<Rightarrow> refmap \<Rightarrow> 's trav
       \<Rightarrow> (error + refmap \<times> 's trav) option" where
  "Traverse_map R queryNode referenceMap st =
     (if referenceMap = [] then Some (Inr st)
      else
        (case ReferenceRecursion R queryNode referenceMap st of
           None \<Rightarrow> None
         | Some (Inl e) \<Rightarrow> Some (Inl e)
         | Some (Inr (m1, st1)) \<Rightarrow>
             if Scale queryNode \<noteq> INT_MIN then
               (case rbegin m1 of
                  None \<Rightarrow> Some (Inl EmptyMapDeref)
                | Some (tk, vec) \<Rightarrow>
                    if Scale queryNode \<ge> tk then
                      (case Traverse_nonself R queryNode (tl (children queryNode)) m1 st1 of
                         None \<Rightarrow> None
                       | Some (Inl e) \<Rightarrow> Some (Inl e)
                       | Some (Inr (m2, st2)) \<Rightarrow>
                           (case children queryNode of
                              [] \<Rightarrow> Some (Inl ChildOutOfRange)
                            | c0 # cs \<Rightarrow>
                                (case PruneMapForSelfChild R c0 m2 st2 of
                                   Inl e \<Rightarrow> Some (Inl e)
                                 | Inr (m3, st3) \<Rightarrow> Traverse_map R c0 m3 st3)))
                    else Some (Inr st1))
             else
               (case begin_pair m1 of
                  None \<Rightarrow> Some (Inl EmptyMapDeref)
                | Some (k, pointVector) \<Rightarrow>
                    if k \<noteq> INT_MIN then Some (Inl AssertFailed)
                    else Some (Inr (leaf_frames R queryNode pointVector st1)))))"
| "Traverse_nonself R queryNode [] referenceMap st = Some (Inr (referenceMap, st))"
| "Traverse_nonself R queryNode (child # rest) referenceMap st =
     (case PruneMap R queryNode child referenceMap [] st of
        (referenceMap', childMap, st1) \<Rightarrow>
          (case Traverse_map R child childMap st1 of
             None \<Rightarrow> None
           | Some (Inl e) \<Rightarrow> Some (Inl e)
           | Some (Inr st2) \<Rightarrow> Traverse_nonself R queryNode rest referenceMap' st2))"
  by pat_completeness auto
termination
proof (relation "measure (\<lambda>x. case x of
          Inl (R, q, m, st) \<Rightarrow> 2 * size q
        | Inr (R, q, cs, m, st) \<Rightarrow> 2 * sum_list (map size cs) + 1)", goal_cases)
  case 1
  show ?case by simp
next
  case (2 R queryNode)
  show ?case using tl_children_size [of queryNode] by simp
next
  case (3 R queryNode)
  then show ?case by (auto dest: child_size)
next
  case 4
  show ?case by simp
next
  case 5
  show ?case by (simp add: size_CoverTree_pos)
qed

declare ReferenceRecursion.simps [code]

declare Traverse_map.simps [simp del]

text \<open>\<open>Traverse(queryNode, referenceNode)\<close> (lines 46-72).\<close>

definition Traverse ::
  "'s rules \<Rightarrow> CoverTree \<Rightarrow> CoverTree \<Rightarrow> 's trav \<Rightarrow> (error + 's trav) option" where
  "Traverse R queryNode refNode st =
     (case callBaseCase R (Point queryNode) (Point refNode) st of
        (bc, st1) \<Rightarrow>
          Traverse_map R queryNode
            (map_push (Scale refNode)
               \<lparr>referenceNode = refNode, score = 0,
                referenceIndex = Point refNode, queryIndex = Point queryNode,
                baseCase = bc\<rparr> []) st1)"

section \<open>RangeSearch: the constructors and the mode dispatch of Search\<close>

text \<open>
  \<open>TreeType::Mat\<close> is a matrix whose columns are the points; only its number of columns
  is read here, so a matrix is the list of its columns.
\<close>

type_synonym mat = "real list list"

definition n_cols :: "mat \<Rightarrow> nat" where
  "n_cols M = length M"

text \<open>
  The members \<open>referenceTree\<close> and \<open>queryTree\<close> are pointers. A constructor whose
  initialiser list does not name a pointer and whose body does not assign it leaves it
  uninitialised.
\<close>

datatype 'a pointer = Uninitialised | Null | Ptr 'a

record 'm RangeSearch =
  referenceCopy :: mat
  queryCopy :: mat
  referenceSet :: mat
  querySet :: mat
  referenceTree :: "CoverTree pointer"
  queryTree :: "CoverTree pointer"
  oldFromNewReferences :: "nat list"
  oldFromNewQueries :: "nat list"
  treeOwner :: bool
  hasQuerySet :: bool
  naive :: bool
  singleMode :: bool
  metric :: 'm
  numPrunes_rs :: nat

text \<open>
  The tree constructor \<open>TreeType(data, oldFromNew, leafSize)\<close> belongs to the template
  parameter \<open>TreeType\<close> and is not among the sources: it is a parameter \<open>build\<close> of the
  model, which returns the tree, the (possibly reordered) data and the index mapping, or
  fails with whatever that constructor throws.
\<close>

type_synonym 'e builder = "mat \<Rightarrow> nat \<Rightarrow> 'e + CoverTree \<times> mat \<times> nat list"

text \<open>
  The constructor from a reference set and a query set (lines 19-54). Its initialiser
  list names neither tree pointer; the body assigns them only when trees are built.
\<close>

definition RangeSearch_ctor ::
  "'e builder \<Rightarrow> mat \<Rightarrow> mat \<Rightarrow> bool \<Rightarrow> bool \<Rightarrow> nat \<Rightarrow> 'm \<Rightarrow> 'e + 'm RangeSearch" where
  "RangeSearch_ctor build refSet qSet naive_arg singleMode_arg leafSize metric_arg =
     (let obj = \<lparr>referenceCopy = refSet, queryCopy = qSet,
                 referenceSet = refSet, querySet = qSet,
                 referenceTree = Uninitialised, queryTree = Uninitialised,
                 oldFromNewReferences = [], oldFromNewQueries = [],
                 treeOwner = (\<not> naive_arg), hasQuerySet = True,
                 naive = naive_arg, singleMode = (\<not> naive_arg \<and> singleMode_arg),
                 metric = metric_arg, numPrunes_rs = 0\<rparr> in
      if \<not> naive_arg then
        (case build (referenceCopy obj) (if naive_arg then n_cols (referenceCopy obj) else leafSize) of
           Inl e \<Rightarrow> Inl e
         | Inr (rt, rdata, rmap) \<Rightarrow>
             (let obj1 = obj\<lparr>referenceTree := Ptr rt, referenceCopy := rdata,
                             referenceSet := rdata, oldFromNewReferences := rmap\<rparr> in
              if \<not> singleMode_arg then
                (case build (queryCopy obj1)
                        (if naive_arg then n_cols (queryCopy obj1) else leafSize) of
                   Inl e \<Rightarrow> Inl e
                 | Inr (qt, qdata, qmap) \<Rightarrow>
                     Inr (obj1\<lparr>queryTree := Ptr qt, queryCopy := qdata,
                               querySet := qdata, oldFromNewQueries := qmap\<rparr>))
              else Inr obj1))
      else Inr obj)"

text \<open>
  The constructor from a reference set alone (lines 56-88): the query set is the
  reference set, and in dual-tree mode the query tree is a copy of the reference tree.
  The initialiser list has \<open>queryTree(NULL)\<close> and does not name \<open>referenceTree\<close>.
\<close>

definition RangeSearch_ctor_ref ::
  "'e builder \<Rightarrow> mat \<Rightarrow> bool \<Rightarrow> bool \<Rightarrow> nat \<Rightarrow> 'm \<Rightarrow> 'e + 'm RangeSearch" where
  "RangeSearch_ctor_ref build refSet naive_arg singleMode_arg leafSize metric_arg =
     (let obj = \<lparr>referenceCopy = refSet, queryCopy = [],
                 referenceSet = refSet, querySet = refSet,
                 referenceTree = Uninitialised, queryTree = Null,
                 oldFromNewReferences = [], oldFromNewQueries = [],
                 treeOwner = (\<not> naive_arg), hasQuerySet = False,
                 naive = naive_arg, singleMode = (\<not> naive_arg \<and> singleMode_arg),
                 metric = metric_arg, numPrunes_rs = 0\<rparr> in
      if \<not> naive_arg then
        (case build (referenceCopy obj) (if naive_arg then n_cols (referenceCopy obj) else leafSize) of
           Inl e \<Rightarrow> Inl e
         | Inr (rt, rdata, rmap) \<Rightarrow>
             (let obj1 = obj\<lparr>referenceTree := Ptr rt, referenceCopy := rdata,
                             referenceSet := rdata, querySet := rdata,
                             oldFromNewReferences := rmap\<rparr> in
              if \<not> singleMode_arg then Inr (obj1\<lparr>queryTree := Ptr rt\<rparr>)
              else Inr obj1))
      else Inr obj)"

text \<open>The naive branch of \<open>Search\<close> (lines 184-190).\<close>

definition naive_search :: "'s rules \<Rightarrow> nat \<Rightarrow> nat \<Rightarrow> 's trav \<Rightarrow> 's trav" where
  "naive_search R nq nr st =
     fold (\<lambda>i st1. fold (\<lambda>j st2. snd (callBaseCase R i j st2)) [0..<nr] st1) [0..<nq] st"

text \<open>
  The single-tree branch (lines 191-201). The \<open>SingleTreeTraverser\<close> of the tree type is
  not among the sources; it is the parameter \<open>single\<close>.
\<close>

type_synonym 's single_traverser =
  "'s rules \<Rightarrow> nat \<Rightarrow> CoverTree \<Rightarrow> 's trav \<Rightarrow> (error + 's trav) option"

fun single_search ::
  "'s single_traverser \<Rightarrow> 's rules \<Rightarrow> nat list \<Rightarrow> CoverTree \<Rightarrow> 's trav
     \<Rightarrow> (error + 's trav) option" where
  "single_search single R [] rt st = Some (Inr st)"
| "single_search single R (i # is) rt st =
     (case single R i rt st of
        None \<Rightarrow> None
      | Some (Inl e) \<Rightarrow> Some (Inl e)
      | Some (Inr st1) \<Rightarrow> single_search single R is rt st1)"

text \<open>
  \<open>Search\<close>, lines 156-210: the counter is reset, a fresh rule object (state \<open>s\<close>) and a
  fresh traverser are made, and the mode is chosen, naive before single before dual. The
  state returned holds the policy's results and the traverser's prune count. The index
  remapping of lines 218-292 works on the result vectors inside the policy and is not
  modelled.
\<close>

definition Search ::
  "'m RangeSearch \<Rightarrow> 's single_traverser \<Rightarrow> 's rules \<Rightarrow> 's \<Rightarrow> (error + 's trav) option" where
  "Search rs single R s =
     (let st = \<lparr>rstate = s, numPrunes = 0, calls = []\<rparr> in
      if naive rs then
        Some (Inr (naive_search R (n_cols (querySet rs)) (n_cols (referenceSet rs)) st))
      else if singleMode rs then
        (case referenceTree rs of
           Uninitialised \<Rightarrow> Some (Inl UninitialisedDeref)
         | Null \<Rightarrow> Some (Inl NullDeref)
         | Ptr rt \<Rightarrow> single_search single R [0..<n_cols (querySet rs)] rt st)
      else
        (case queryTree rs of
           Uninitialised \<Rightarrow> Some (Inl UninitialisedDeref)
         | Null \<Rightarrow> Some (Inl NullDeref)
         | Ptr qt \<Rightarrow>
             (case referenceTree rs of
                Uninitialised \<Rightarrow> Some (Inl UninitialisedDeref)
              | Null \<Rightarrow> Some (Inl NullDeref)
              | Ptr rt \<Rightarrow> Traverse R qt rt st)))"

text \<open>
  The constructor from two trees built by the caller (lines 90-110): nothing is built, and
  the object does not own the trees.
\<close>

definition RangeSearch_trees ::
  "CoverTree pointer \<Rightarrow> CoverTree pointer \<Rightarrow> mat \<Rightarrow> mat \<Rightarrow> bool \<Rightarrow> 'm \<Rightarrow> 'm RangeSearch" where
  "RangeSearch_trees refTree qTree refSet qSet singleMode_arg metric_arg =
     \<lparr>referenceCopy = [], queryCopy = [],
      referenceSet = refSet, querySet = qSet,
      referenceTree = refTree, queryTree = qTree,
      oldFromNewReferences = [], oldFromNewQueries = [],
      treeOwner = False, hasQuerySet = True,
      naive = False, singleMode = singleMode_arg,
      metric = metric_arg, numPrunes_rs = 0\<rparr>"

section \<open>Notions used to state the properties\<close>

text \<open>
The number of \<open>BaseCase\<close> calls in a sequence of calls.
\<close>

definition num_BaseCase :: "call list \<Rightarrow> nat" where
  "num_BaseCase cs = length (filter (\<lambda>c. case c of BaseCaseCall q r \<Rightarrow> True | _ \<Rightarrow> False) cs)"


text \<open>
  A frame is cached for a query node when its base case was computed for the very pair of
  points it stands for (the test of lines 150, 330 and 439).
\<close>

definition cached :: "CoverTree \<Rightarrow> DualCoverTreeMapEntry \<Rightarrow> bool" where
  "cached q f = (referenceIndex f = Point (referenceNode f) \<and> queryIndex f = Point q)"

text \<open>
The calls one frame of the leaf bucket causes; \<open>b\<close> tells whether \<open>Rescore\<close> pruned.
\<close>

definition leaf_calls :: "CoverTree \<Rightarrow> DualCoverTreeMapEntry \<Rightarrow> bool \<Rightarrow> call list" where
  "leaf_calls q f b =
     (if cached q f then []
      else if b then [RescoreCall q (referenceNode f) (score f)]
      else [RescoreCall q (referenceNode f) (score f),
            BaseCaseCall (Point q) (Point (referenceNode f))])"

text \<open>
The frames of the leaf bucket that are counted as pruned.
\<close>

definition leaf_pruned :: "CoverTree \<Rightarrow> DualCoverTreeMapEntry \<Rightarrow> bool \<Rightarrow> bool" where
  "leaf_pruned q f b = (cached q f \<or> b)"

text \<open>
No bucket of a frontier other than the leaf bucket is empty.
\<close>

definition no_empty_bucket :: "refmap \<Rightarrow> bool" where
  "no_empty_bucket cm = (\<forall>k. k \<noteq> INT_MIN \<longrightarrow> map_of cm k \<noteq> Some [])"

text \<open>
The number of frames held by a frontier.
\<close>

definition num_frames :: "refmap \<Rightarrow> nat" where
  "num_frames m = sum_list (map (\<lambda>p. length (snd p)) m)"

text \<open>
The calls made for the non-self children; \<open>bs\<close> are their base cases.
\<close>

definition child_calls :: "CoverTree \<Rightarrow> CoverTree list \<Rightarrow> real list \<Rightarrow> call list" where
  "child_calls q cs bs =
     concat (map2 (\<lambda>c b. [BaseCaseCall (Point q) (Point c), ScoreCall q c b]) cs bs)"

text \<open>
  The policy's answers for the non-self children, in order: for each child its base case
  and its score, the policy's state being passed from call to call.
\<close>

fun child_results ::
  "'s rules \<Rightarrow> CoverTree \<Rightarrow> CoverTree list \<Rightarrow> 's \<Rightarrow> (real \<times> real) list \<times> 's" where
  "child_results R q [] s = ([], s)"
| "child_results R q (c # cs) s =
     (case BaseCase R (Point q) (Point c) s of (b, s1) \<Rightarrow>
       (case Score R q c b s1 of (sc, s2) \<Rightarrow>
         (case child_results R q cs s2 of (res, s3) \<Rightarrow> ((b, sc) # res, s3))))"

text \<open>The frame admitted for a child with base case \<open>b\<close> and score \<open>sc\<close>.\<close>

definition child_frame :: "CoverTree \<Rightarrow> CoverTree \<Rightarrow> nat \<Rightarrow> real \<Rightarrow> real \<Rightarrow> DualCoverTreeMapEntry" where
  "child_frame q c ri b sc =
     \<lparr>referenceNode = c, score = sc, referenceIndex = ri, queryIndex = Point q, baseCase = b\<rparr>"

text \<open>
  The frontier after the non-self children: a child is admitted exactly when its own score
  is not the prune sentinel.
\<close>

fun admit :: "CoverTree \<Rightarrow> (CoverTree \<times> real \<times> real) list \<Rightarrow> refmap \<Rightarrow> refmap" where
  "admit q [] m = m"
| "admit q ((c, b, sc) # xs) m =
     admit q xs (if sc = DBL_MAX then m else map_push (Scale c) (child_frame q c (Point c) b sc) m)"

definition num_pruned :: "(real \<times> real) list \<Rightarrow> nat" where
  "num_pruned res = length (filter (\<lambda>(b, sc). sc = DBL_MAX) res)"

text \<open>
  The policy's verdicts in the leaf phase, in the order of the bucket, the policy's state
  being passed from call to call: a cached frame causes no call; any other frame is
  rescored, and \<open>BaseCase\<close> is called for it exactly when \<open>Rescore\<close> did not return the
  prune sentinel. The verdict of a frame is \<open>True\<close> when \<open>Rescore\<close> was called for it
  and returned the prune sentinel.
\<close>

fun leaf_verdicts ::
  "'s rules \<Rightarrow> CoverTree \<Rightarrow> DualCoverTreeMapEntry list \<Rightarrow> 's \<Rightarrow> bool list \<times> 's" where
  "leaf_verdicts R q [] s = ([], s)"
| "leaf_verdicts R q (f # fs) s =
     (if cached q f then
        (case leaf_verdicts R q fs s of (bs, s') \<Rightarrow> (False # bs, s'))
      else
        (case Rescore R q (referenceNode f) (score f) s of (rs, s1) \<Rightarrow>
           if rs = DBL_MAX then
             (case leaf_verdicts R q fs s1 of (bs, s') \<Rightarrow> (True # bs, s'))
           else
             (case BaseCase R (Point q) (Point (referenceNode f)) s1 of (v, s2) \<Rightarrow>
               (case leaf_verdicts R q fs s2 of (bs, s') \<Rightarrow> (False # bs, s')))))"

text \<open>The points of a tree: the point indices of its nodes.\<close>

fun points :: "CoverTree \<Rightarrow> nat set" where
  "points (CoverTree p s cs) = insert p (\<Union>c\<in>set cs. points c)"

text \<open>No point lies in two of the trees of a list.\<close>

fun disjoint_points :: "CoverTree list \<Rightarrow> bool" where
  "disjoint_points [] = True"
| "disjoint_points (c # cs) = ((\<forall>d\<in>set cs. points c \<inter> points d = {}) \<and> disjoint_points cs)"

text \<open>
  What the traversal relies on in a cover tree (spec section 3): child 0 of a node is its
  self-child, with the node's point; the children of a node hold different points; and no
  child has a greater scale than its parent.
\<close>

fun valid_tree :: "CoverTree \<Rightarrow> bool" where
  "valid_tree (CoverTree p s cs) =
     ((case cs of [] \<Rightarrow> True | c0 # rest \<Rightarrow> Point c0 = p)
      \<and> disjoint_points cs
      \<and> (\<forall>c\<in>set cs. Scale c \<le> s \<and> valid_tree c))"

text \<open>The pairs of points of the \<open>BaseCase\<close> calls in a sequence of calls.\<close>

fun bc_pairs :: "call list \<Rightarrow> (nat \<times> nat) list" where
  "bc_pairs [] = []"
| "bc_pairs (BaseCaseCall q r # cs) = (q, r) # bc_pairs cs"
| "bc_pairs (ScoreCall q r b # cs) = bc_pairs cs"
| "bc_pairs (RescoreCall q r b # cs) = bc_pairs cs"

section \<open>Notions used in the proofs: the budget of base cases\<close>

text \<open>
  That no pair of points gets two base cases in one run is shown by an accounting. A frame
  of a frontier stands for the pairs that may still be evaluated below it, its budget; a
  call of \<open>BaseCase\<close> takes its pair out of the budget; and the budgets of the frames of a
  frontier, and those of the children of a query node, are disjoint.

  \<open>consumes st st' B B'\<close>: from \<open>st\<close> to \<open>st'\<close> calls were added whose base cases are
  pairwise different pairs of \<open>B\<close>, none of which is in \<open>B'\<close>.
\<close>

definition consumes :: "'s trav \<Rightarrow> 's trav \<Rightarrow> (nat \<times> nat) set \<Rightarrow> (nat \<times> nat) set \<Rightarrow> bool" where
  "consumes st st' B B' =
     (\<exists>N. calls st' = calls st @ N \<and> distinct (bc_pairs N)
        \<and> set (bc_pairs N) \<subseteq> B \<and> B' \<subseteq> B - set (bc_pairs N))"

text \<open>The frames of a frontier.\<close>

definition frameset :: "refmap \<Rightarrow> DualCoverTreeMapEntry set" where
  "frameset m = (\<Union>k. set (map_at k m))"

text \<open>
  The number of frames whose reference node holds the point \<open>p\<close>: in a list of frames,
  in a frontier, in a list of buckets, and the number of trees of a list that hold \<open>p\<close>.
\<close>

definition cover :: "nat \<Rightarrow> DualCoverTreeMapEntry list \<Rightarrow> nat" where
  "cover p fs = length (filter (\<lambda>f. p \<in> points (referenceNode f)) fs)"

definition cov :: "nat \<Rightarrow> refmap \<Rightarrow> nat" where
  "cov p m = (\<Sum>k\<in>set (keys m). cover p (map_at k m))"

definition lcov :: "nat \<Rightarrow> refmap \<Rightarrow> nat" where
  "lcov p xs = sum_list (map (\<lambda>kv. cover p (snd kv)) xs)"

definition pcover :: "nat \<Rightarrow> CoverTree list \<Rightarrow> nat" where
  "pcover p cs = length (filter (\<lambda>c. p \<in> points c) cs)"

text \<open>
  The base cases a frame may still cause below a query node: all pairs of a point of the
  query subtree and a point of the reference subtree, but for the pair of the two
  representatives when the frame is cached. The budget of a list of frames, of a frontier
  and of a list of buckets.
\<close>

definition allowed :: "CoverTree \<Rightarrow> DualCoverTreeMapEntry \<Rightarrow> (nat \<times> nat) set" where
  "allowed q f =
     (points q \<times> points (referenceNode f))
       - (if cached q f then {(Point q, Point (referenceNode f))} else {})"

definition budgetL :: "CoverTree \<Rightarrow> DualCoverTreeMapEntry list \<Rightarrow> (nat \<times> nat) set" where
  "budgetL q fs = (\<Union>f\<in>set fs. allowed q f)"

definition budget :: "CoverTree \<Rightarrow> refmap \<Rightarrow> (nat \<times> nat) set" where
  "budget q m = (\<Union>f\<in>frameset m. allowed q f)"

definition budgetP :: "CoverTree \<Rightarrow> refmap \<Rightarrow> (nat \<times> nat) set" where
  "budgetP c xs = (\<Union>kv\<in>set xs. budgetL c (snd kv))"

text \<open>
  The invariant of the frontier of a query node \<open>q\<close>: the map is well-formed; every frame
  lies in the bucket of its node's scale, its node is a valid tree and its query index, if
  it is a point of the subtree of \<open>q\<close>, is the point of \<open>q\<close>; and no reference point is
  held by two frames.
\<close>

definition frame_ok :: "CoverTree \<Rightarrow> DualCoverTreeMapEntry \<Rightarrow> bool" where
  "frame_ok q f =
     (valid_tree (referenceNode f) \<and> (queryIndex f \<in> points q \<longrightarrow> queryIndex f = Point q))"

definition buckets_ok :: "CoverTree \<Rightarrow> refmap \<Rightarrow> bool" where
  "buckets_ok q m = (\<forall>k. \<forall>f\<in>set (map_at k m). Scale (referenceNode f) = k \<and> frame_ok q f)"

definition Inv :: "CoverTree \<Rightarrow> refmap \<Rightarrow> bool" where
  "Inv q m = (wf_map m \<and> buckets_ok q m \<and> (\<forall>p. cov p m \<le> 1))"

text \<open>Pushing a list of frames, each on the bucket of its node's scale.\<close>

fun push_all :: "DualCoverTreeMapEntry list \<Rightarrow> refmap \<Rightarrow> refmap" where
  "push_all [] m = m"
| "push_all (e # es) m = push_all es (map_push (Scale (referenceNode e)) e m)"

text \<open>
  In round \<open>i\<close> of the loop of \<open>ReferenceRecursion\<close> over the bucket \<open>tk\<close>: the budget
  that is left, of the frames from position \<open>i\<close> on and of all other buckets; and the
  invariant, in which the frames before position \<open>i\<close> are those already expanded.
\<close>

definition rest_budget :: "CoverTree \<Rightarrow> int \<Rightarrow> nat \<Rightarrow> refmap \<Rightarrow> (nat \<times> nat) set" where
  "rest_budget q tk i m = budgetL q (drop i (map_at tk m)) \<union> budget q (map_erase tk m)"

definition LInv :: "CoverTree \<Rightarrow> int \<Rightarrow> nat \<Rightarrow> refmap \<Rightarrow> bool" where
  "LInv q tk i m =
     (wf_map m \<and> buckets_ok q m \<and> tk \<in> set (keys m) \<and> (\<forall>k\<in>set (keys m). k \<le> tk)
      \<and> (\<forall>p. cov p m \<le> cover p (take i (map_at tk m)) + 1))"

section \<open>Concrete trees, frontiers and policies\<close>

text \<open>
A tree of one point is a single leaf; \<open>pair_tree\<close> holds the points 0 and 1.
\<close>

definition leaf :: "nat \<Rightarrow> CoverTree" where
  "leaf p = CoverTree p INT_MIN []"

definition pair_tree :: CoverTree where
  "pair_tree = CoverTree 0 1 [leaf 0, leaf 1]"

definition start :: "'s \<Rightarrow> 's trav" where
  "start s = \<lparr>rstate = s, numPrunes = 0, calls = []\<rparr>"

text \<open>
A policy that never prunes: every base case is 1, scores are passed on.
\<close>

definition recording :: "unit rules" where
  "recording =
     \<lparr>BaseCase = (\<lambda>q r s. (1, s)),
      Score = (\<lambda>q r b s. (b, s)),
      Rescore = (\<lambda>q r old s. (old, s))\<rparr>"

text \<open>
A policy whose \<open>Rescore\<close> prunes exactly the reference nodes of point \<open>p\<close>.
\<close>

definition prune_point :: "nat \<Rightarrow> unit rules" where
  "prune_point p =
     \<lparr>BaseCase = (\<lambda>q r s. (1, s)),
      Score = (\<lambda>q r b s. (b, s)),
      Rescore = (\<lambda>q r old s. (if Point r = p then DBL_MAX else old, s))\<rparr>"

text \<open>A policy whose \<open>Score\<close> prunes exactly the reference nodes of point \<open>p\<close>.\<close>

definition score_prune_point :: "nat \<Rightarrow> unit rules" where
  "score_prune_point p =
     \<lparr>BaseCase = (\<lambda>q r s. (1, s)),
      Score = (\<lambda>q r b s. (if Point r = p then DBL_MAX else b, s)),
      Rescore = (\<lambda>q r old s. (old, s))\<rparr>"

text \<open>A tree of three points.\<close>

definition triple_tree :: CoverTree where
  "triple_tree = CoverTree 0 1 [leaf 0, leaf 1, leaf 2]"

text \<open>A tree of four points on three levels.\<close>

definition quad_tree :: CoverTree where
  "quad_tree = CoverTree 0 2 [CoverTree 0 1 [leaf 0, leaf 1], CoverTree 2 1 [leaf 2, leaf 3]]"

text \<open>
  A range search over points on a line: \<open>BaseCase\<close> returns the distance and records the
  pair when the distance is at most \<open>hi\<close>; \<open>Score\<close> prunes a node pair whose
  representatives are further apart than \<open>hi + slack\<close>, which discards no result as long
  as no descendant pair is more than \<open>slack\<close> closer than the representatives;
  \<open>Rescore\<close> returns the old score.
\<close>

definition range_rules :: "mat \<Rightarrow> mat \<Rightarrow> real \<Rightarrow> real \<Rightarrow> (nat \<times> nat) list rules" where
  "range_rules Q Rf hi slack =
     \<lparr>BaseCase = (\<lambda>q r s. (\<bar>hd (Q ! q) - hd (Rf ! r)\<bar>,
                     if \<bar>hd (Q ! q) - hd (Rf ! r)\<bar> \<le> hi then s @ [(q, r)] else s)),
      Score = (\<lambda>qn rn bc s. (if bc > hi + slack then DBL_MAX else bc, s)),
      Rescore = (\<lambda>qn rn old s. (old, s))\<rparr>"

text \<open>
A frame of node \<open>n\<close> whose base case was computed for query point \<open>q\<close>.
\<close>

definition frame_of :: "CoverTree \<Rightarrow> nat \<Rightarrow> DualCoverTreeMapEntry" where
  "frame_of n q =
     \<lparr>referenceNode = n, score = 0, referenceIndex = Point n, queryIndex = q, baseCase = 1\<rparr>"

text \<open>
A tree constructor that rejects a leaf size of zero.
\<close>

definition strict_builder :: "string builder" where
  "strict_builder M l = (if l = 0 then Inl ''leaf size'' else Inr (leaf 0, M, [0..<length M]))"

text \<open>
Evaluation: \<open>DBL_MAX\<close> is none of the small values the concrete policies return.
\<close>

lemma DBL_MAX_gt: "1000 < DBL_MAX"
proof -
  have "(1000::real) < 2 ^ 10" by simp
  also have "(2::real) ^ 10 \<le> 2 ^ 1023" by (rule power_increasing) simp_all
  also have "(2::real) ^ 1023 = 1 * 2 ^ 1023" by simp
  also have "\<dots> \<le> (2 - 1 / 2 ^ 52) * 2 ^ 1023"
    by (rule mult_right_mono) (simp_all add: field_simps)
  finally show ?thesis by (simp add: DBL_MAX_def)
qed

lemma DBL_MAX_neq:
  "\<bar>x\<bar> \<le> 1000 \<Longrightarrow> (x = DBL_MAX) = False"
  "\<bar>x\<bar> \<le> 1000 \<Longrightarrow> (DBL_MAX = x) = False"
  using DBL_MAX_gt by auto

lemmas eval_defs = Traverse_def callBaseCase_def callScore_def callRescore_def prune_def
  refrec_frame_def map_push_def map_at_def map_touch_def map_erase_def rbegin_def begin_pair_def
  PruneMap_def PruneMapForSelfChild_def rdesig_def before_def NumChildren_def INT_MIN_def
  ReferenceRecursion.simps refrec_frames.simps selfchild_scales.simps Traverse_map.simps
  Let_def DBL_MAX_neq keys_def wf_map_def
  leaf_def pair_tree_def start_def recording_def prune_point_def range_rules_def frame_of_def
  num_BaseCase_def

section \<open>Lemmas\<close>

subsection \<open>The frontier as a map\<close>

lemma keys_conv_dom: "set (keys m) = dom (map_of m)"
  by (simp add: keys_def dom_map_of_conv_image_fst)

lemma keys_map_set: "set (keys (map_set k v m)) = insert k (set (keys m))"
  by (simp add: keys_conv_dom map_of_map_set)

lemma map_of_map_erase: "map_of (map_erase k m) = (map_of m)(k := None)"
  by (induction m) (auto simp: map_erase_def fun_eq_iff)

lemma map_of_map_touch:
  "map_of (map_touch k m) = (map_of m)(k \<mapsto> map_at k m)"
  by (auto simp: map_touch_def map_at_def map_of_map_set fun_eq_iff split: option.splits)

lemma keys_map_erase: "set (keys (map_erase k m)) = set (keys m) - {k}"
  by (auto simp: keys_conv_dom map_of_map_erase)

lemma keys_map_touch: "set (keys (map_touch k m)) = insert k (set (keys m))"
  by (auto simp: keys_conv_dom map_of_map_touch)

lemma map_at_map_touch: "map_at k' (map_touch k m) = map_at k' m"
  by (auto simp: map_at_def map_of_map_touch split: option.splits)

lemma map_touch_id: "k \<in> set (keys m) \<Longrightarrow> map_touch k m = m"
  by (auto simp: map_touch_def keys_conv_dom split: option.splits)

lemma map_at_fresh: "k \<notin> set (keys m) \<Longrightarrow> map_at k m = []"
  by (auto simp: map_at_def keys_conv_dom split: option.splits)

lemma wf_map_set: "wf_map m \<Longrightarrow> wf_map (map_set k v m)"
proof (induction m)
  case Nil
  then show ?case by (simp add: wf_map_def keys_def)
next
  case (Cons p m)
  obtain k' v' where p: "p = (k', v')" by (cases p)
  from Cons.prems have tl: "wf_map m" and lt: "\<forall>y\<in>set (keys m). k' < y"
    by (auto simp: wf_map_def keys_def p)
  show ?case
  proof (cases "k < k'")
    case True
    with Cons.prems lt show ?thesis by (auto simp: wf_map_def keys_def p)
  next
    case False
    show ?thesis
    proof (cases "k = k'")
      case True
      with Cons.prems show ?thesis by (auto simp: wf_map_def keys_def p)
    next
      case ne: False
      with False have "k' < k" by simp
      moreover have "wf_map (map_set k v m)" using Cons.IH tl by simp
      ultimately show ?thesis
        using False ne lt keys_map_set [of k v m]
        by (auto simp: wf_map_def p keys_def)
    qed
  qed
qed

lemma wf_map_erase: "wf_map m \<Longrightarrow> wf_map (map_erase k m)"
  by (simp add: wf_map_def keys_def map_erase_def sorted_wrt_map sorted_wrt_filter)

lemma wf_map_push: "wf_map m \<Longrightarrow> wf_map (map_push k e m)"
  by (simp add: map_push_def wf_map_set)

lemma wf_map_touch: "wf_map m \<Longrightarrow> wf_map (map_touch k m)"
  by (simp add: map_touch_def wf_map_set split: option.splits)

lemma wf_map_last:
  assumes "wf_map m" "m \<noteq> []" "k \<in> set (keys m)"
  shows "k \<le> fst (last m)"
proof -
  from assms(2) obtain ms p where m: "m = ms @ [p]" by (metis rev_exhaust)
  from assms(1) have "\<forall>x\<in>set (map fst ms). x < fst p"
    by (simp add: wf_map_def keys_def m sorted_wrt_append)
  with assms(3) show ?thesis by (auto simp: m keys_def)
qed

lemma num_frames_push:
  "wf_map m \<Longrightarrow> num_frames (map_push k e m) = num_frames m + 1"
proof (induction m)
  case Nil
  show ?case by (simp add: map_push_def map_at_def num_frames_def)
next
  case (Cons p m)
  obtain k' v' where p: "p = (k', v')" by (cases p)
  from Cons.prems have tl: "wf_map m" and lt: "\<forall>y\<in>set (keys m). k' < y"
    by (auto simp: wf_map_def keys_def p)
  consider "k < k'" | "k = k'" | "k' < k" by linarith
  then show ?case
  proof cases
    case 1
    then have "k \<notin> set (keys (p # m))" using lt by (auto simp: keys_def p)
    then have "map_at k (p # m) = []" by (rule map_at_fresh)
    with 1 show ?thesis by (simp add: map_push_def p num_frames_def)
  next
    case 2
    then show ?thesis by (simp add: map_push_def map_at_def p num_frames_def)
  next
    case 3
    then have "map_at k (p # m) = map_at k m" by (simp add: map_at_def p)
    with 3 have "map_push k e (p # m) = p # map_push k e m"
      by (simp add: map_push_def p)
    with Cons.IH [OF tl] show ?thesis by (simp add: num_frames_def)
  qed
qed

lemma rbegin_Some: "rbegin m = Some (k, v) \<Longrightarrow> m \<noteq> [] \<and> last m = (k, v)"
  by (auto simp: rbegin_def split: if_splits)

subsection \<open>Calls and the prune counter\<close>

lemma calls_prune [simp]: "calls (prune n st) = calls st"
  by (simp add: prune_def)

lemma numPrunes_prune [simp]: "numPrunes (prune n st) = numPrunes st + n"
  by (simp add: prune_def)



lemma callScore_calls:
  "calls (snd (callScore R q r b st)) = calls st @ [ScoreCall q r b]"
  by (simp add: callScore_def split: prod.splits)

lemma callScore_numPrunes: "numPrunes (snd (callScore R q r b st)) = numPrunes st"
  by (simp add: callScore_def split: prod.splits)

lemma callBaseCase_calls:
  "calls (snd (callBaseCase R qi ri st)) = calls st @ [BaseCaseCall qi ri]"
  by (simp add: callBaseCase_def split: prod.splits)

lemma callBaseCase_numPrunes: "numPrunes (snd (callBaseCase R qi ri st)) = numPrunes st"
  by (simp add: callBaseCase_def split: prod.splits)


lemma num_BaseCase_append [simp]: "num_BaseCase (xs @ ys) = num_BaseCase xs + num_BaseCase ys"
  by (simp add: num_BaseCase_def)

subsection \<open>ReferenceRecursion keeps the frontier well-formed\<close>

lemma refrec_children_wf:
  "wf_map m \<Longrightarrow> wf_map (fst (refrec_children R q cs m st))"
  by (induction cs arbitrary: m st) (auto simp: wf_map_push split: prod.splits)

lemma refrec_frame_wf:
  assumes "refrec_frame R q f m st = Inr (m', st')" "wf_map m"
  shows "wf_map m'"
proof -
  have a: "\<And>cs m0 st0. refrec_children R q cs m0 st0 = (m', st') \<Longrightarrow> wf_map m0 \<Longrightarrow> wf_map m'"
    using refrec_children_wf by (metis fst_conv)
  show ?thesis
    using assms
    by (auto simp: refrec_frame_def Let_def wf_map_push
        split: prod.splits if_splits list.splits dest: a)
qed

lemma refrec_frames_wf:
  "refrec_frames R q t i m st = Inr (m', st') \<Longrightarrow> wf_map m \<Longrightarrow> wf_map m'"
proof (induction R q t i m st rule: refrec_frames.induct)
  case (1 R q t i m st)
  show ?case
  proof (cases "i < length (map_at t m)")
    case True
    with "1.prems"(1) obtain m1 st1 where
      f: "refrec_frame R q (map_at t m ! i) m st = Inr (m1, st1)"
      and r: "refrec_frames R q t (i + 1) m1 st1 = Inr (m', st')"
      by (subst (asm) refrec_frames.simps) (auto split: sum.splits)
    from refrec_frame_wf [OF f "1.prems"(2)] have "wf_map m1" .
    from "1.IH" [OF True f refl r this] show ?thesis .
  next
    case False
    with "1.prems" show ?thesis by (subst (asm) refrec_frames.simps) simp
  qed
qed

lemma ReferenceRecursion_inv:
  assumes "ReferenceRecursion R q m st = Some y" "wf_map m"
  shows "\<forall>m' st'. y = Inr (m', st') \<longrightarrow>
           wf_map m' \<and> m' \<noteq> [] \<and> (\<forall>k\<in>set (keys m'). k \<le> Scale q)"
proof -
  have "wf_map m \<longrightarrow> (\<forall>m' st'. y = Inr (m', st') \<longrightarrow>
           wf_map m' \<and> m' \<noteq> [] \<and> (\<forall>k\<in>set (keys m'). k \<le> Scale q))"
  proof (rule ReferenceRecursion.raw_induct
      [where P = "\<lambda>R q m st y. wf_map m \<longrightarrow> (\<forall>m' st'. y = Inr (m', st') \<longrightarrow>
           wf_map m' \<and> m' \<noteq> [] \<and> (\<forall>k\<in>set (keys m'). k \<le> Scale q))", OF _ assms(1)])
    fix rr :: "'a rules \<Rightarrow> CoverTree \<Rightarrow> refmap \<Rightarrow> 'a trav \<Rightarrow> (error + refmap \<times> 'a trav) option"
    fix R q m st y
    assume IH: "\<And>R q m st y. rr R q m st = Some y \<Longrightarrow>
        wf_map m \<longrightarrow> (\<forall>m' st'. y = Inr (m', st') \<longrightarrow>
           wf_map m' \<and> m' \<noteq> [] \<and> (\<forall>k\<in>set (keys m'). k \<le> Scale q))"
    assume body: "(case rbegin m of None \<Rightarrow> Some (Inl EmptyMapDeref)
      | Some (tk, vec) \<Rightarrow>
          if Scale q < tk
          then if Scale q = INT_MIN \<and> tk = INT_MIN then Some (Inr (m, st))
               else case refrec_frames R q tk 0
                          (map_set tk (sort_key score vec) m) st of
                    Inl e \<Rightarrow> Some (Inl e)
                    | Inr (m2, st2) \<Rightarrow>
                        case rbegin m2 of None \<Rightarrow> Some (Inl EmptyMapDeref)
                        | Some (top2, vec2) \<Rightarrow>
                            rr R q (map_erase top2 m2) st2
          else Some (Inr (m, st))) = Some y"
    show "wf_map m \<longrightarrow> (\<forall>m' st'. y = Inr (m', st') \<longrightarrow>
           wf_map m' \<and> m' \<noteq> [] \<and> (\<forall>k\<in>set (keys m'). k \<le> Scale q))"
    proof
      assume wf: "wf_map m"
      show "\<forall>m' st'. y = Inr (m', st') \<longrightarrow>
           wf_map m' \<and> m' \<noteq> [] \<and> (\<forall>k\<in>set (keys m'). k \<le> Scale q)"
      proof (cases "rbegin m")
        case None
        with body show ?thesis by auto
      next
        case (Some p)
        obtain tk vec where p: "p = (tk, vec)" by (cases p)
        from Some p have ne: "m \<noteq> []" and last: "last m = (tk, vec)"
          using rbegin_Some by auto
        show ?thesis
        proof (cases "Scale q < tk")
          case False
          with body Some p have y: "y = Inr (m, st)" by simp
          have "\<forall>k\<in>set (keys m). k \<le> Scale q"
            using wf_map_last [OF wf ne] last False by fastforce
          with y ne wf show ?thesis by simp
        next
          case True
          then have nb: "\<not> (Scale q = INT_MIN \<and> tk = INT_MIN)" by auto
          show ?thesis
          proof (cases "refrec_frames R q tk 0 (map_set tk (sort_key score vec) m) st")
            case (Inl e)
            with body Some p True nb show ?thesis by auto
          next
            case (Inr r)
            obtain m2 st2 where r: "r = (m2, st2)" by (cases r)
            have wf2: "wf_map m2"
              using refrec_frames_wf Inr r wf_map_set [OF wf] by blast
            show ?thesis
            proof (cases "rbegin m2")
              case None
              with body Some p True nb Inr r show ?thesis by auto
            next
              case s2: (Some p2)
              obtain top2 vec2 where p2: "p2 = (top2, vec2)" by (cases p2)
              from body Some p True nb Inr r s2 p2
              have "rr R q (map_erase top2 m2) st2 = Some y" by simp
              from IH [OF this] wf_map_erase [OF wf2] show ?thesis by blast
            qed
          qed
        qed
      qed
    qed
  qed
  with assms(2) show ?thesis by blast
qed

subsection \<open>The expansion of a frame\<close>

lemma refrec_children_trace:
  assumes "wf_map m"
  shows "\<exists>bs. length bs = length cs
      \<and> calls (snd (refrec_children R q cs m st)) = calls st @ child_calls q cs bs
      \<and> num_frames (fst (refrec_children R q cs m st))
           + numPrunes (snd (refrec_children R q cs m st))
         = num_frames m + numPrunes st + length cs"
  using assms
proof (induction cs arbitrary: m st)
  case Nil
  show ?case by (simp add: child_calls_def)
next
  case (Cons c cs)
  obtain bc st1 where b: "callBaseCase R (Point q) (Point c) st = (bc, st1)"
    by (cases "callBaseCase R (Point q) (Point c) st")
  obtain sc st2 where s: "callScore R q c bc st1 = (sc, st2)"
    by (cases "callScore R q c bc st1")
  have c2: "calls st2 = calls st @ [BaseCaseCall (Point q) (Point c), ScoreCall q c bc]"
    and n2: "numPrunes st2 = numPrunes st"
    using callBaseCase_calls [of R "Point q" "Point c" st] callScore_calls [of R q c bc st1]
      callBaseCase_numPrunes [of R "Point q" "Point c" st] callScore_numPrunes [of R q c bc st1]
      b s by simp_all
  show ?case
  proof (cases "sc = DBL_MAX")
    case True
    have run: "refrec_children R q (c # cs) m st = refrec_children R q cs m (prune 1 st2)"
      using b s True by simp
    from Cons.IH [OF Cons.prems, of "prune 1 st2"] obtain bs where
      bs: "length bs = length cs"
        "calls (snd (refrec_children R q cs m (prune 1 st2))) = calls st2 @ child_calls q cs bs"
        "num_frames (fst (refrec_children R q cs m (prune 1 st2)))
           + numPrunes (snd (refrec_children R q cs m (prune 1 st2)))
         = num_frames m + (numPrunes st2 + 1) + length cs"
      by auto
    show ?thesis
      by (rule exI [of _ "bc # bs"]) (use bs run c2 n2 in \<open>simp add: child_calls_def\<close>)
  next
    case False
    define e where "e = \<lparr>referenceNode = c, score = sc, referenceIndex = Point c,
                          queryIndex = Point q, baseCase = bc\<rparr>"
    have run: "refrec_children R q (c # cs) m st
        = refrec_children R q cs (map_push (Scale c) e m) st2"
      using b s False by (simp add: e_def)
    from Cons.IH [OF wf_map_push [OF Cons.prems], of "Scale c" e st2] obtain bs where
      bs: "length bs = length cs"
        "calls (snd (refrec_children R q cs (map_push (Scale c) e m) st2))
           = calls st2 @ child_calls q cs bs"
        "num_frames (fst (refrec_children R q cs (map_push (Scale c) e m) st2))
           + numPrunes (snd (refrec_children R q cs (map_push (Scale c) e m) st2))
         = num_frames (map_push (Scale c) e m) + numPrunes st2 + length cs"
      by auto
    show ?thesis
      by (rule exI [of _ "bc # bs"])
        (use bs run c2 n2 num_frames_push [OF Cons.prems, of "Scale c" e] in
          \<open>simp add: child_calls_def\<close>)
  qed
qed

lemma refrec_children_keeps:
  "e \<in> set (map_at k m) \<Longrightarrow> e \<in> set (map_at k (fst (refrec_children R q cs m st)))"
  using refrec_children_bucket [of k R q cs m st] by auto


lemma expansion_trace:
  assumes "callRescore R q (referenceNode f) (score f) st = (rs, st1)" and "rs \<noteq> DBL_MAX"
    and "(if Point (referenceNode f) \<noteq> referenceIndex f \<or> Point q \<noteq> queryIndex f
          then callBaseCase R (Point q) (Point (referenceNode f)) st1
          else (baseCase f, st1)) = (bc, st2)"
    and "callScore R q (referenceNode f) bc st2 = (sc, st3)" and "sc \<noteq> DBL_MAX"
    and "children (referenceNode f) = c0 # cs"
    and "callScore R q c0 bc st3 = (selfScore, st4)"
    and "wf_map m"
  shows "\<exists>m' st' bs. refrec_frame R q f m st = Inr (m', st')
      \<and> length bs = length cs
      \<and> calls st' = calls st3 @ ScoreCall q c0 bc # child_calls q cs bs
      \<and> (selfScore \<noteq> DBL_MAX \<longrightarrow>
           \<lparr>referenceNode = c0, score = selfScore, referenceIndex = Point (referenceNode f),
            queryIndex = Point q, baseCase = bc\<rparr> \<in> set (map_at (Scale c0) m'))
      \<and> num_frames m' + numPrunes st' = num_frames m + numPrunes st3 + length (c0 # cs)"
proof -
  have c4: "calls st4 = calls st3 @ [ScoreCall q c0 bc]" and n4: "numPrunes st4 = numPrunes st3"
    using callScore_calls [of R q c0 bc st3] callScore_numPrunes [of R q c0 bc st3] assms(7)
    by simp_all
  show ?thesis
  proof (cases "selfScore = DBL_MAX")
    case True
    have run: "refrec_frame R q f m st = Inr (refrec_children R q cs m (prune 1 st4))"
      using assms(1-7) True by (simp add: refrec_frame_def Let_def)
    from refrec_children_trace [OF assms(8), of cs R q "prune 1 st4"] obtain bs where
      bs: "length bs = length cs"
        "calls (snd (refrec_children R q cs m (prune 1 st4))) = calls st4 @ child_calls q cs bs"
        "num_frames (fst (refrec_children R q cs m (prune 1 st4)))
           + numPrunes (snd (refrec_children R q cs m (prune 1 st4)))
         = num_frames m + (numPrunes st4 + 1) + length cs"
      by auto
    show ?thesis
      apply (rule exI [of _ "fst (refrec_children R q cs m (prune 1 st4))"])
      apply (rule exI [of _ "snd (refrec_children R q cs m (prune 1 st4))"])
      apply (rule exI [of _ bs])
      using run bs c4 n4 True by simp
  next
    case False
    define e where "e = \<lparr>referenceNode = c0, score = selfScore,
        referenceIndex = Point (referenceNode f), queryIndex = Point q, baseCase = bc\<rparr>"
    have run: "refrec_frame R q f m st
        = Inr (refrec_children R q cs (map_push (Scale c0) e m) st4)"
      using assms(1-7) False by (simp add: refrec_frame_def Let_def e_def)
    from refrec_children_trace [OF wf_map_push [OF assms(8)], of cs R q "Scale c0" e st4]
    obtain bs where
      bs: "length bs = length cs"
        "calls (snd (refrec_children R q cs (map_push (Scale c0) e m) st4))
           = calls st4 @ child_calls q cs bs"
        "num_frames (fst (refrec_children R q cs (map_push (Scale c0) e m) st4))
           + numPrunes (snd (refrec_children R q cs (map_push (Scale c0) e m) st4))
         = num_frames (map_push (Scale c0) e m) + numPrunes st4 + length cs"
      by auto
    have "e \<in> set (map_at (Scale c0) (map_push (Scale c0) e m))"
      by (simp add: map_at_map_push)
    then have mem: "e \<in> set (map_at (Scale c0)
        (fst (refrec_children R q cs (map_push (Scale c0) e m) st4)))"
      by (rule refrec_children_keeps)
    show ?thesis
      apply (rule exI [of _ "fst (refrec_children R q cs (map_push (Scale c0) e m) st4)"])
      apply (rule exI [of _ "snd (refrec_children R q cs (map_push (Scale c0) e m) st4)"])
      apply (rule exI [of _ bs])
      using run bs c4 n4 mem num_frames_push [OF assms(8), of "Scale c0" e]
      by (simp add: e_def)
  qed
qed

lemma refrec_children_exact:
  "refrec_children R q cs m st =
     (admit q (zip cs (fst (child_results R q cs (rstate st)))) m,
      st\<lparr>rstate := snd (child_results R q cs (rstate st)),
         numPrunes := numPrunes st + num_pruned (fst (child_results R q cs (rstate st))),
         calls := calls st @ child_calls q cs (map fst (fst (child_results R q cs (rstate st))))\<rparr>)"
proof (induction cs arbitrary: m st)
  case Nil
  show ?case by (simp add: child_calls_def num_pruned_def)
next
  case (Cons c cs)
  obtain b s1 where b: "BaseCase R (Point q) (Point c) (rstate st) = (b, s1)"
    by (cases "BaseCase R (Point q) (Point c) (rstate st)")
  obtain sc s2 where s: "Score R q c b s1 = (sc, s2)"
    by (cases "Score R q c b s1")
  obtain res s3 where r: "child_results R q cs s2 = (res, s3)"
    by (cases "child_results R q cs s2")
  define st2 where "st2 = st\<lparr>rstate := s2,
      calls := calls st @ [BaseCaseCall (Point q) (Point c), ScoreCall q c b]\<rparr>"
  have cb: "callBaseCase R (Point q) (Point c) st
      = (b, st\<lparr>rstate := s1, calls := calls st @ [BaseCaseCall (Point q) (Point c)]\<rparr>)"
    using b by (simp add: callBaseCase_def)
  have cs': "callScore R q c b
        (st\<lparr>rstate := s1, calls := calls st @ [BaseCaseCall (Point q) (Point c)]\<rparr>)
      = (sc, st2)"
    using s by (simp add: callScore_def st2_def)
  have r2: "rstate st2 = s2" "numPrunes st2 = numPrunes st"
    "calls st2 = calls st @ [BaseCaseCall (Point q) (Point c), ScoreCall q c b]"
    by (simp_all add: st2_def)
  show ?case
  proof (cases "sc = DBL_MAX")
    case True
    have "refrec_children R q (c # cs) m st = refrec_children R q cs m (prune 1 st2)"
      using cb cs' True by simp
    also have "\<dots> = (admit q (zip cs res) m,
        (prune 1 st2)\<lparr>rstate := s3,
          numPrunes := numPrunes (prune 1 st2) + num_pruned res,
          calls := calls (prune 1 st2) @ child_calls q cs (map fst res)\<rparr>)"
      using Cons.IH [of m "prune 1 st2"] r r2 by (simp add: prune_def)
    finally show ?thesis
      using b s r True r2 by (simp add: prune_def st2_def child_calls_def num_pruned_def)
  next
    case False
    have "refrec_children R q (c # cs) m st
        = refrec_children R q cs
            (map_push (Scale c) (child_frame q c (Point c) b sc) m) st2"
      using cb cs' False by (simp add: child_frame_def)
    also have "\<dots> = (admit q (zip cs res) (map_push (Scale c) (child_frame q c (Point c) b sc) m),
        st2\<lparr>rstate := s3,
          numPrunes := numPrunes st2 + num_pruned res,
          calls := calls st2 @ child_calls q cs (map fst res)\<rparr>)"
      using Cons.IH [of "map_push (Scale c) (child_frame q c (Point c) b sc) m" st2] r r2
      by simp
    finally show ?thesis
      using b s r False r2 by (simp add: st2_def child_calls_def num_pruned_def)
  qed
qed

subsection \<open>The leaf phase\<close>




lemma leaf_frames_exact:
  "leaf_frames R q fs st =
     st\<lparr>rstate := snd (leaf_verdicts R q fs (rstate st)),
        numPrunes := numPrunes st
          + length (filter (\<lambda>(f, b). leaf_pruned q f b)
                      (zip fs (fst (leaf_verdicts R q fs (rstate st))))),
        calls := calls st
          @ concat (map2 (leaf_calls q) fs (fst (leaf_verdicts R q fs (rstate st))))\<rparr>"
proof (induction fs arbitrary: st)
  case Nil
  show ?case by simp
next
  case (Cons f fs)
  show ?case
  proof (cases "cached q f")
    case True
    obtain bs s' where v: "leaf_verdicts R q fs (rstate st) = (bs, s')"
      by (cases "leaf_verdicts R q fs (rstate st)")
    have run: "leaf_frames R q (f # fs) st = leaf_frames R q fs (prune 1 st)"
      using True by (simp add: cached_def Let_def)
    show ?thesis
      unfolding run Cons.IH [of "prune 1 st"]
      using True v by (simp add: prune_def leaf_calls_def [of q f] leaf_pruned_def [of q f])
  next
    case False
    obtain rs s1 where r: "Rescore R q (referenceNode f) (score f) (rstate st) = (rs, s1)"
      by (cases "Rescore R q (referenceNode f) (score f) (rstate st)")
    define st1 where "st1 = st\<lparr>rstate := s1,
        calls := calls st @ [RescoreCall q (referenceNode f) (score f)]\<rparr>"
    have cr: "callRescore R q (referenceNode f) (score f) st = (rs, st1)"
      using r by (simp add: callRescore_def st1_def)
    show ?thesis
    proof (cases "rs = DBL_MAX")
      case True
      obtain bs s' where v: "leaf_verdicts R q fs s1 = (bs, s')"
        by (cases "leaf_verdicts R q fs s1")
      have run: "leaf_frames R q (f # fs) st = leaf_frames R q fs (prune 1 st1)"
        using False True cr by (auto simp add: cached_def Let_def)
      show ?thesis
        unfolding run Cons.IH [of "prune 1 st1"]
        using False True r v
        by (simp add: prune_def st1_def leaf_calls_def [of q f] leaf_pruned_def [of q f])
    next
      case np: False
      obtain v s2 where b: "BaseCase R (Point q) (Point (referenceNode f)) s1 = (v, s2)"
        by (cases "BaseCase R (Point q) (Point (referenceNode f)) s1")
      define st2 where "st2 = st1\<lparr>rstate := s2,
          calls := calls st1 @ [BaseCaseCall (Point q) (Point (referenceNode f))]\<rparr>"
      have cb: "callBaseCase R (Point q) (Point (referenceNode f)) st1 = (v, st2)"
        using b by (simp add: callBaseCase_def st1_def st2_def)
      obtain bs s' where vs: "leaf_verdicts R q fs s2 = (bs, s')"
        by (cases "leaf_verdicts R q fs s2")
      have run: "leaf_frames R q (f # fs) st = leaf_frames R q fs st2"
        using False np cr cb by (auto simp add: cached_def Let_def)
      show ?thesis
        unfolding run Cons.IH [of st2]
        using False np r b vs
        by (simp add: st1_def st2_def leaf_calls_def [of q f] leaf_pruned_def [of q f])
    qed
  qed
qed

subsection \<open>PruneMap\<close>

lemma prunemap_scales_inv:
  assumes "no_empty_bucket cm" "set (keys cm) \<subseteq> K" "set (keys ms) \<subseteq> K"
  shows "no_empty_bucket (fst (prunemap_scales R c ms cm st))
       \<and> set (keys (fst (prunemap_scales R c ms cm st))) \<subseteq> K"
  using assms
proof (induction ms arbitrary: cm st)
  case Nil
  then show ?case by simp
next
  case (Cons p ms)
  obtain k vec where p: "p = (k, vec)" by (cases p)
  show ?case
  proof (cases "k = INT_MIN")
    case True
    with Cons.prems p show ?thesis by simp
  next
    case False
    obtain new st1 where
      f: "prunemap_frames R c vec (map_at k (map_touch k cm)) st = (new, st1)"
      by (cases "prunemap_frames R c vec (map_at k (map_touch k cm)) st")
    define cm2 where
      "cm2 = (if new = [] then map_erase k (map_touch k cm) else map_set k new (map_touch k cm))"
    have kK: "k \<in> K" and msK: "set (keys ms) \<subseteq> K"
      using Cons.prems(3) p by (auto simp: keys_def)
    have ne: "no_empty_bucket cm2"
      using Cons.prems(1)
      by (auto simp: cm2_def no_empty_bucket_def map_of_map_erase map_of_map_set map_of_map_touch)
    have sub: "set (keys cm2) \<subseteq> K"
      using Cons.prems(2) kK
      by (auto simp: cm2_def keys_map_erase keys_map_set keys_map_touch)
    have "prunemap_scales R c (p # ms) cm st = prunemap_scales R c ms cm2 st1"
      using False f by (simp add: p cm2_def Let_def)
    with Cons.IH [OF ne sub msK, of st1] show ?thesis by simp
  qed
qed

subsection \<open>Budgets of base cases\<close>

lemma bc_pairs_append [simp]: "bc_pairs (xs @ ys) = bc_pairs xs @ bc_pairs ys"
  by (induction xs rule: bc_pairs.induct) simp_all

lemma consumes_refl: "B' \<subseteq> B \<Longrightarrow> calls st' = calls st \<Longrightarrow> consumes st st' B B'"
  by (auto simp: consumes_def)

lemma consumes_trans:
  assumes "consumes st st1 B B1" "consumes st1 st2 B1 B2"
  shows "consumes st st2 B B2"
proof -
  from assms(1) obtain N1 where 1: "calls st1 = calls st @ N1" "distinct (bc_pairs N1)"
    "set (bc_pairs N1) \<subseteq> B" "B1 \<subseteq> B - set (bc_pairs N1)"
    by (auto simp: consumes_def)
  from assms(2) obtain N2 where 2: "calls st2 = calls st1 @ N2" "distinct (bc_pairs N2)"
    "set (bc_pairs N2) \<subseteq> B1" "B2 \<subseteq> B1 - set (bc_pairs N2)"
    by (auto simp: consumes_def)
  have "calls st2 = calls st @ (N1 @ N2)" using 1 2 by simp
  moreover have "distinct (bc_pairs (N1 @ N2))" using 1 2 by auto
  moreover have "set (bc_pairs (N1 @ N2)) \<subseteq> B" using 1 2 by auto
  moreover have "B2 \<subseteq> B - set (bc_pairs (N1 @ N2))" using 1 2 by auto
  ultimately show ?thesis unfolding consumes_def by blast
qed

lemma consumes_weaken:
  "consumes st st' B B' \<Longrightarrow> B \<subseteq> C \<Longrightarrow> D \<subseteq> B' \<Longrightarrow> consumes st st' C D"
  unfolding consumes_def by blast

lemma consumes_frame:
  assumes "consumes st st' B B'" "C \<inter> B = {}"
  shows "consumes st st' (B \<union> C) (B' \<union> C)"
  using assms unfolding consumes_def by blast

lemma consumes_prune: "consumes st st1 B B' \<Longrightarrow> consumes st (prune n st1) B B'"
  by (simp add: consumes_def)

lemma consumes_callRescore:
  "callRescore R q r old st = (v, st1) \<Longrightarrow> consumes st st1 B B"
  by (auto simp: consumes_def callRescore_def split: prod.splits)

lemma consumes_callScore:
  "callScore R q r b st = (v, st1) \<Longrightarrow> consumes st st1 B B"
  by (auto simp: consumes_def callScore_def split: prod.splits)

lemma consumes_callBaseCase:
  "callBaseCase R qi ri st = (v, st1) \<Longrightarrow> (qi, ri) \<in> B \<Longrightarrow> consumes st st1 B (B - {(qi, ri)})"
  by (auto simp: consumes_def callBaseCase_def split: prod.splits)

subsection \<open>Valid trees\<close>

lemma Point_in_points [simp]: "Point t \<in> points t"
  by (cases t) simp

lemma points_children: "c \<in> set (children t) \<Longrightarrow> points c \<subseteq> points t"
  by (cases t) auto

lemma valid_children:
  "valid_tree t \<Longrightarrow> c \<in> set (children t) \<Longrightarrow> valid_tree c \<and> Scale c \<le> Scale t"
  by (cases t) auto

lemma valid_disjoint: "valid_tree t \<Longrightarrow> disjoint_points (children t)"
  by (cases t) auto

lemma valid_self: "valid_tree t \<Longrightarrow> children t = c0 # cs \<Longrightarrow> Point c0 = Point t"
  by (cases t) auto

lemma valid_nonself:
  assumes "valid_tree t" "children t = c0 # cs" "c \<in> set cs"
  shows "Point t \<notin> points c" "points c0 \<inter> points c = {}"
proof -
  from valid_disjoint [OF assms(1)] assms(2,3) show d: "points c0 \<inter> points c = {}" by auto
  have "Point t \<in> points c0" using valid_self [OF assms(1,2)] Point_in_points [of c0] by simp
  with d show "Point t \<notin> points c" by auto
qed

subsection \<open>The frames of a frontier\<close>

lemma cover_Nil [simp]: "cover p [] = 0"
  by (simp add: cover_def)

lemma cover_Cons [simp]:
  "cover p (f # fs) = (if p \<in> points (referenceNode f) then 1 else 0) + cover p fs"
  by (simp add: cover_def)

lemma cover_append [simp]: "cover p (xs @ ys) = cover p xs + cover p ys"
  by (simp add: cover_def)

lemma cover_sort_key [simp]: "cover p (sort_key f xs) = cover p xs"
  by (simp add: cover_def filter_sort)

lemma cover_zero_iff: "cover p fs = 0 \<longleftrightarrow> (\<forall>f\<in>set fs. p \<notin> points (referenceNode f))"
  by (induction fs) auto

lemma cover_pos: "f \<in> set fs \<Longrightarrow> p \<in> points (referenceNode f) \<Longrightarrow> 0 < cover p fs"
  using cover_zero_iff [of p fs] by auto

lemma map_at_map_erase: "map_at k' (map_erase k m) = (if k' = k then [] else map_at k' m)"
  by (simp add: map_at_def map_of_map_erase)

lemma cov_split: "cov p m = cover p (map_at k m) + (\<Sum>k'\<in>set (keys m) - {k}. cover p (map_at k' m))"
proof (cases "k \<in> set (keys m)")
  case True
  then show ?thesis unfolding cov_def by (simp add: sum.remove)
next
  case False
  then show ?thesis unfolding cov_def by (simp add: map_at_fresh)
qed

lemma cov_map_set: "cov p (map_set k v m) + cover p (map_at k m) = cov p m + cover p v"
proof -
  have "(\<Sum>k'\<in>set (keys (map_set k v m)) - {k}. cover p (map_at k' (map_set k v m)))
      = (\<Sum>k'\<in>set (keys m) - {k}. cover p (map_at k' m))"
    by (rule sum.cong) (auto simp: keys_map_set map_at_map_set)
  then show ?thesis
    using cov_split [of p "map_set k v m" k] cov_split [of p m k]
    by (simp add: map_at_map_set)
qed

lemma cov_map_erase: "cov p (map_erase k m) + cover p (map_at k m) = cov p m"
proof -
  have "(\<Sum>k'\<in>set (keys (map_erase k m)) - {k}. cover p (map_at k' (map_erase k m)))
      = (\<Sum>k'\<in>set (keys m) - {k}. cover p (map_at k' m))"
    by (rule sum.cong) (auto simp: keys_map_erase map_at_map_erase)
  then show ?thesis
    using cov_split [of p "map_erase k m" k] cov_split [of p m k]
    by (simp add: map_at_map_erase)
qed

lemma cov_map_push:
  "cov p (map_push k e m) = cov p m + (if p \<in> points (referenceNode e) then 1 else 0)"
  using cov_map_set [of p k "map_at k m @ [e]" m] by (simp add: map_push_def)

lemma cov_map_touch: "cov p (map_touch k m) = cov p m"
proof (cases "k \<in> set (keys m)")
  case True
  then show ?thesis by (simp add: map_touch_id)
next
  case False
  then have "map_touch k m = map_set k [] m"
    by (auto simp: map_touch_def keys_conv_dom split: option.splits)
  with cov_map_set [of p k "[]" m] False show ?thesis by (simp add: map_at_fresh)
qed

lemma cover_le_cov: "cover p (map_at k m) \<le> cov p m"
  using cov_split [of p m k] by simp

lemma frameset_iff: "f \<in> frameset m \<longleftrightarrow> (\<exists>k. f \<in> set (map_at k m))"
  by (simp add: frameset_def)

lemma frameset_map_touch [simp]: "frameset (map_touch k m) = frameset m"
  by (simp add: frameset_def map_at_map_touch)

lemma frameset_Nil [simp]: "frameset [] = {}"
  by (simp add: frameset_def map_at_def)

lemma cov_Nil [simp]: "cov p [] = 0"
  by (simp add: cov_def keys_def)

text \<open>In a well-formed map the pairs of the list are the buckets.\<close>

lemma wf_map_distinct: "wf_map m \<Longrightarrow> distinct (map fst m)"
  by (simp add: wf_map_def keys_def strict_sorted_iff)

lemma wf_map_bucket: "wf_map m \<Longrightarrow> (k, v) \<in> set m \<Longrightarrow> map_at k m = v"
  by (simp add: map_at_def wf_map_distinct)

subsection \<open>The budget of a frontier\<close>

lemma budgetL_Nil [simp]: "budgetL q [] = {}"
  by (simp add: budgetL_def)

lemma budgetL_Cons [simp]: "budgetL q (f # fs) = allowed q f \<union> budgetL q fs"
  by (simp add: budgetL_def)

lemma budgetL_append [simp]: "budgetL q (xs @ ys) = budgetL q xs \<union> budgetL q ys"
  by (auto simp: budgetL_def)

lemma allowed_subset: "allowed q f \<subseteq> points q \<times> points (referenceNode f)"
  by (auto simp: allowed_def)

lemma budgetL_points:
  "(x, y) \<in> budgetL q fs \<Longrightarrow> x \<in> points q \<and> 0 < cover y fs"
  by (auto simp: budgetL_def allowed_def intro: cover_pos split: if_splits)

lemma push_all_append: "push_all (xs @ ys) m = push_all ys (push_all xs m)"
  by (induction xs arbitrary: m) simp_all

lemma map_at_push_all:
  "map_at k (push_all es m) = map_at k m @ filter (\<lambda>e. Scale (referenceNode e) = k) es"
  by (induction es arbitrary: m) (auto simp: map_at_map_push)

lemma wf_push_all: "wf_map m \<Longrightarrow> wf_map (push_all es m)"
  by (induction es arbitrary: m) (simp_all add: wf_map_push)

lemma cov_push_all: "cov p (push_all es m) = cov p m + cover p es"
  by (induction es arbitrary: m) (simp_all add: cov_map_push)

lemma keys_map_push: "set (keys (map_push k e m)) = insert k (set (keys m))"
  by (simp add: map_push_def keys_map_set)

lemma keys_push_all:
  "set (keys (push_all es m)) = set (keys m) \<union> (\<lambda>e. Scale (referenceNode e)) ` set es"
  by (induction es arbitrary: m) (auto simp: keys_map_push)

lemma pcover_Nil [simp]: "pcover p [] = 0"
  by (simp add: pcover_def)

lemma pcover_Cons [simp]: "pcover p (c # cs) = (if p \<in> points c then 1 else 0) + pcover p cs"
  by (simp add: pcover_def)

lemma pcover_zero_iff: "pcover p cs = 0 \<longleftrightarrow> (\<forall>c\<in>set cs. p \<notin> points c)"
  by (induction cs) auto

lemma disjoint_pcover: "disjoint_points cs \<Longrightarrow> pcover p cs \<le> 1"
proof (induction cs)
  case Nil
  show ?case by simp
next
  case (Cons c cs)
  show ?case
  proof (cases "p \<in> points c")
    case True
    with Cons.prems have "\<forall>d\<in>set cs. p \<notin> points d" by auto
    then have "pcover p cs = 0" by (simp add: pcover_zero_iff)
    with True show ?thesis by simp
  next
    case False
    with Cons show ?thesis by simp
  qed
qed

lemma pcover_children:
  assumes "valid_tree n"
  shows "pcover p (children n) \<le> (if p \<in> points n then 1 else 0)"
proof (cases "p \<in> points n")
  case True
  with disjoint_pcover [OF valid_disjoint [OF assms]] show ?thesis by simp
next
  case False
  then have "\<forall>c\<in>set (children n). p \<notin> points c" using points_children by blast
  then have "pcover p (children n) = 0" by (simp add: pcover_zero_iff)
  then show ?thesis by simp
qed

lemma disjoint_distinct_Point: "disjoint_points cs \<Longrightarrow> distinct (map Point cs)"
proof (induction cs)
  case Nil
  show ?case by simp
next
  case (Cons c cs)
  have "Point c \<notin> Point ` set cs"
  proof
    assume "Point c \<in> Point ` set cs"
    then obtain d where d: "d \<in> set cs" "Point d = Point c" by auto
    then have "Point c \<in> points c \<inter> points d" using Point_in_points [of d] by simp
    with Cons.prems d(1) show False by auto
  qed
  with Cons show ?case by simp
qed

text \<open>The non-self children of a reference node.\<close>

lemma refrec_children_local:
  "\<exists>es N. fst (refrec_children R q cs m st) = push_all es m
     \<and> (\<forall>e\<in>set es. referenceNode e \<in> set cs \<and> queryIndex e = Point q
                    \<and> referenceIndex e = Point (referenceNode e))
     \<and> (\<forall>p. cover p es \<le> pcover p cs)
     \<and> calls (snd (refrec_children R q cs m st)) = calls st @ N
     \<and> bc_pairs N = map (\<lambda>c. (Point q, Point c)) cs"
proof (induction cs arbitrary: m st)
  case Nil
  show ?case
    by (rule exI [of _ "[]"], rule exI [of _ "[]"]) simp
next
  case (Cons c cs)
  obtain bc st1 where b: "callBaseCase R (Point q) (Point c) st = (bc, st1)"
    by (cases "callBaseCase R (Point q) (Point c) st")
  obtain sc st2 where s: "callScore R q c bc st1 = (sc, st2)"
    by (cases "callScore R q c bc st1")
  have c2: "calls st2 = calls st @ [BaseCaseCall (Point q) (Point c), ScoreCall q c bc]"
    using callBaseCase_calls [of R "Point q" "Point c" st] callScore_calls [of R q c bc st1]
      b s by simp
  show ?case
  proof (cases "sc = DBL_MAX")
    case True
    have run: "refrec_children R q (c # cs) m st = refrec_children R q cs m (prune 1 st2)"
      using b s True by simp
    from Cons.IH [of m "prune 1 st2"] obtain es N where
      es: "fst (refrec_children R q cs m (prune 1 st2)) = push_all es m"
        "\<forall>e\<in>set es. referenceNode e \<in> set cs \<and> queryIndex e = Point q
                    \<and> referenceIndex e = Point (referenceNode e)"
        "\<forall>p. cover p es \<le> pcover p cs"
        "calls (snd (refrec_children R q cs m (prune 1 st2))) = calls (prune 1 st2) @ N"
        "bc_pairs N = map (\<lambda>c. (Point q, Point c)) cs"
      by blast
    show ?thesis
      apply (rule exI [of _ es])
      apply (rule exI [of _ "[BaseCaseCall (Point q) (Point c), ScoreCall q c bc] @ N"])
      using es run c2 by (auto intro: le_trans)
  next
    case False
    define e where "e = \<lparr>referenceNode = c, score = sc, referenceIndex = Point c,
                          queryIndex = Point q, baseCase = bc\<rparr>"
    have run: "refrec_children R q (c # cs) m st
        = refrec_children R q cs (map_push (Scale c) e m) st2"
      using b s False by (simp add: e_def)
    from Cons.IH [of "map_push (Scale c) e m" st2] obtain es N where
      es: "fst (refrec_children R q cs (map_push (Scale c) e m) st2)
             = push_all es (map_push (Scale c) e m)"
        "\<forall>e\<in>set es. referenceNode e \<in> set cs \<and> queryIndex e = Point q
                    \<and> referenceIndex e = Point (referenceNode e)"
        "\<forall>p. cover p es \<le> pcover p cs"
        "calls (snd (refrec_children R q cs (map_push (Scale c) e m) st2)) = calls st2 @ N"
        "bc_pairs N = map (\<lambda>c. (Point q, Point c)) cs"
      by blast
    have pe: "push_all es (map_push (Scale c) e m) = push_all (e # es) m"
      by (simp add: e_def)
    show ?thesis
      apply (rule exI [of _ "e # es"])
      apply (rule exI [of _ "[BaseCaseCall (Point q) (Point c), ScoreCall q c bc] @ N"])
      using es run c2 pe by (auto simp: e_def)
  qed
qed

lemma disjoint_points_same:
  "disjoint_points cs \<Longrightarrow> c \<in> set cs \<Longrightarrow> d \<in> set cs \<Longrightarrow> p \<in> points c \<Longrightarrow> p \<in> points d
     \<Longrightarrow> c = d"
  by (induction cs) auto

lemma expansion_budget:
  assumes v: "valid_tree n" and ch: "children n = c0 # cs"
    and es: "\<forall>e\<in>set es. referenceNode e \<in> set (c0 # cs) \<and> cached q e"
  shows "budgetL q es
    \<subseteq> (points q \<times> points n - {(Point q, Point n)}) - (\<lambda>c. (Point q, Point c)) ` set cs"
proof
  fix xy
  assume "xy \<in> budgetL q es"
  then obtain e where e: "e \<in> set es" "xy \<in> allowed q e" by (auto simp: budgetL_def)
  obtain x y where xy: "xy = (x, y)" by (cases xy)
  from es e(1) have mem: "referenceNode e \<in> set (c0 # cs)" and c: "cached q e" by auto
  from e(2) c xy have x: "x \<in> points q" and y: "y \<in> points (referenceNode e)"
    and ne: "(x, y) \<noteq> (Point q, Point (referenceNode e))"
    by (auto simp: allowed_def)
  have sub: "points (referenceNode e) \<subseteq> points n"
    using points_children [of "referenceNode e" n] mem ch by simp
  have d: "disjoint_points (c0 # cs)" using valid_disjoint [OF v] ch by simp
  have P0: "Point c0 = Point n" by (rule valid_self [OF v ch])
  have 1: "(x, y) \<noteq> (Point q, Point n)"
  proof
    assume a: "(x, y) = (Point q, Point n)"
    then have "Point c0 \<in> points (referenceNode e)" using y P0 by simp
    moreover have "c0 \<in> set (c0 # cs)" by simp
    ultimately have "c0 = referenceNode e"
      using disjoint_points_same [OF d _ mem, where p = "Point c0" and c = c0] by simp
    with ne a P0 show False by simp
  qed
  have 2: "(x, y) \<notin> (\<lambda>c. (Point q, Point c)) ` set cs"
  proof
    assume "(x, y) \<in> (\<lambda>c. (Point q, Point c)) ` set cs"
    then obtain c where c: "c \<in> set cs" "x = Point q" "y = Point c" by auto
    have "c \<in> set (c0 # cs)" using c(1) by simp
    from disjoint_points_same [OF d this mem, where p = "Point c"] y c(3)
    have "c = referenceNode e" by simp
    with ne c show False by simp
  qed
  show "xy \<in> (points q \<times> points n - {(Point q, Point n)}) - (\<lambda>c. (Point q, Point c)) ` set cs"
    using x y sub 1 2 xy by auto
qed

lemma refrec_frame_local:
  assumes run: "refrec_frame R q f m st = Inr (m', st')"
    and v: "valid_tree (referenceNode f)"
  shows "\<exists>es. m' = push_all es m
     \<and> (\<forall>e\<in>set es. referenceNode e \<in> set (children (referenceNode f))
                    \<and> queryIndex e = Point q \<and> cached q e)
     \<and> (\<forall>p. cover p es \<le> (if p \<in> points (referenceNode f) then 1 else 0))
     \<and> consumes st st' (allowed q f) (budgetL q es)"
proof -
  let ?n = "referenceNode f"
  let ?A1 = "points q \<times> points ?n - {(Point q, Point ?n)}"
  obtain rs st1 where r: "callRescore R q ?n (score f) st = (rs, st1)"
    by (cases "callRescore R q ?n (score f) st")
  have c1: "consumes st st1 (allowed q f) (allowed q f)"
    by (rule consumes_callRescore [OF r])
  show ?thesis
  proof (cases "rs = DBL_MAX")
    case True
    with run r have e: "m' = m" "st' = prune 1 st1"
      by (simp_all add: refrec_frame_def Let_def)
    have "consumes st st1 (allowed q f) {}"
      by (rule consumes_weaken [OF c1]) simp_all
    then have "consumes st st' (allowed q f) {}" using e(2) by (simp add: consumes_prune)
    with e(1) show ?thesis by (intro exI [of _ "[]"]) simp
  next
    case rsF: False
    obtain bc st2 where b:
      "(if Point ?n \<noteq> referenceIndex f \<or> Point q \<noteq> queryIndex f
        then callBaseCase R (Point q) (Point ?n) st1 else (baseCase f, st1)) = (bc, st2)"
      by (cases "if Point ?n \<noteq> referenceIndex f \<or> Point q \<noteq> queryIndex f
        then callBaseCase R (Point q) (Point ?n) st1 else (baseCase f, st1)")
    have c2: "consumes st1 st2 (allowed q f) ?A1"
    proof (cases "cached q f")
      case True
      then have "st2 = st1" using b by (auto simp: cached_def)
      moreover have "allowed q f = ?A1" using True by (simp add: allowed_def)
      ultimately show ?thesis by (simp add: consumes_refl)
    next
      case False
      then have bb: "callBaseCase R (Point q) (Point ?n) st1 = (bc, st2)"
        using b by (auto simp: cached_def)
      have al: "allowed q f = points q \<times> points ?n" using False by (simp add: allowed_def)
      have "consumes st1 st2 (allowed q f) (allowed q f - {(Point q, Point ?n)})"
        by (rule consumes_callBaseCase [OF bb]) (simp add: al)
      then show ?thesis by (simp add: al)
    qed
    obtain sc st3 where s: "callScore R q ?n bc st2 = (sc, st3)"
      by (cases "callScore R q ?n bc st2")
    have c3: "consumes st st3 (allowed q f) ?A1"
      by (rule consumes_trans [OF c1 consumes_trans [OF c2 consumes_callScore [OF s]]])
    show ?thesis
    proof (cases "sc = DBL_MAX")
      case True
      with run r rsF b s have e: "m' = m" "st' = prune (NumChildren ?n) st3"
        by (simp_all add: refrec_frame_def Let_def)
      have "consumes st st3 (allowed q f) {}"
        by (rule consumes_weaken [OF c3]) simp_all
      then have "consumes st st' (allowed q f) {}" using e(2) by (simp add: consumes_prune)
      with e(1) show ?thesis by (intro exI [of _ "[]"]) simp
    next
      case scF: False
      from run r rsF b s scF obtain c0 cs where ch: "children ?n = c0 # cs"
        by (cases "children ?n") (simp_all add: refrec_frame_def Let_def)
      obtain ss st4 where s0: "callScore R q c0 bc st3 = (ss, st4)"
        by (cases "callScore R q c0 bc st3")
      define e0 where "e0 = \<lparr>referenceNode = c0, score = ss, referenceIndex = Point ?n,
                             queryIndex = Point q, baseCase = bc\<rparr>"
      define es0 where "es0 = (if ss \<noteq> DBL_MAX then [e0] else [])"
      define st5 where "st5 = (if ss \<noteq> DBL_MAX then st4 else prune 1 st4)"
      have run': "refrec_children R q cs (push_all es0 m) st5 = (m', st')"
        using run r rsF b s scF ch s0
        by (auto simp: refrec_frame_def Let_def es0_def st5_def e0_def)
      have c5: "consumes st st5 (allowed q f) ?A1"
        using consumes_trans [OF c3 consumes_callScore [OF s0]]
        by (simp add: st5_def consumes_prune)
      from refrec_children_local [of R q cs "push_all es0 m" st5] run'
      obtain es1 N where es1: "m' = push_all es1 (push_all es0 m)"
        "\<forall>e\<in>set es1. referenceNode e \<in> set cs \<and> queryIndex e = Point q
                    \<and> referenceIndex e = Point (referenceNode e)"
        "\<forall>p. cover p es1 \<le> pcover p cs"
        "calls st' = calls st5 @ N"
        "bc_pairs N = map (\<lambda>c. (Point q, Point c)) cs"
        by auto
      have P0: "Point c0 = Point ?n" by (rule valid_self [OF v ch])
      have d: "disjoint_points (c0 # cs)" using valid_disjoint [OF v] ch by simp
      have ce0: "cached q e0" by (simp add: cached_def e0_def P0)
      have mem: "\<forall>e\<in>set (es0 @ es1). referenceNode e \<in> set (c0 # cs) \<and> queryIndex e = Point q
                    \<and> cached q e"
        using es1(2) ce0 by (auto simp: es0_def e0_def cached_def)
      have cov0: "cover p es0 \<le> (if p \<in> points c0 then 1 else 0)" for p
        by (simp add: es0_def e0_def)
      have cv: "cover p (es0 @ es1) \<le> (if p \<in> points ?n then 1 else 0)" for p
      proof -
        have "cover p (es0 @ es1) \<le> pcover p (c0 # cs)"
          using cov0 [of p] es1(3) [rule_format, of p] by (simp split: if_splits)
        also have "\<dots> \<le> (if p \<in> points ?n then 1 else 0)"
          using pcover_children [OF v, of p] ch by simp
        finally show ?thesis .
      qed
      have dist: "distinct (bc_pairs N)"
      proof -
        have "inj_on (\<lambda>c. (Point q, Point c)) (set cs)"
          using disjoint_distinct_Point [OF d] by (auto simp: distinct_map inj_on_def)
        moreover have "distinct cs"
          using disjoint_distinct_Point [OF d] by (auto simp: distinct_map)
        ultimately show ?thesis using es1(5) by (simp add: distinct_map)
      qed
      have sub: "set (bc_pairs N) \<subseteq> ?A1"
      proof -
        have "(Point q, Point c) \<in> ?A1" if "c \<in> set cs" for c
        proof -
          have "Point c \<in> points ?n"
            using points_children [of c ?n] that ch Point_in_points [of c] by auto
          moreover have "Point c \<noteq> Point ?n"
            using valid_nonself(1) [OF v ch that] by (metis Point_in_points)
          ultimately show ?thesis by simp
        qed
        then show ?thesis using es1(5) by auto
      qed
      have rest: "budgetL q (es0 @ es1) \<subseteq> ?A1 - set (bc_pairs N)"
      proof -
        have "\<forall>e\<in>set (es0 @ es1). referenceNode e \<in> set (c0 # cs) \<and> cached q e"
          using mem by blast
        from expansion_budget [OF v ch this] show ?thesis using es1(5) by simp
      qed
      have "consumes st5 st' ?A1 (budgetL q (es0 @ es1))"
        unfolding consumes_def using es1(4) dist sub rest by blast
      from consumes_trans [OF c5 this]
      have cons: "consumes st st' (allowed q f) (budgetL q (es0 @ es1))" .
      have "m' = push_all (es0 @ es1) m" using es1(1) by (simp add: push_all_append)
      moreover have "\<forall>e\<in>set (es0 @ es1). referenceNode e \<in> set (children ?n)
                    \<and> queryIndex e = Point q \<and> cached q e"
        using mem ch by simp
      ultimately show ?thesis using cv cons by blast
    qed
  qed
qed

subsection \<open>The budget in the loop of ReferenceRecursion\<close>

lemma frameset_map_erase:
  "frameset (map_erase k m) = {f. \<exists>k'. k' \<noteq> k \<and> f \<in> set (map_at k' m)}"
  by (auto simp: frameset_def map_at_map_erase split: if_splits)

lemma frameset_push_all: "frameset (push_all es m) = frameset m \<union> set es"
  by (auto simp: frameset_def map_at_push_all)

lemma frameset_split: "frameset m = set (map_at k m) \<union> frameset (map_erase k m)"
  by (auto simp: frameset_def map_at_map_erase split: if_splits)

lemma budget_split: "budget q m = budgetL q (map_at k m) \<union> budget q (map_erase k m)"
  unfolding budget_def budgetL_def by (subst frameset_split [of m k]) auto

lemma budget_points: "(x, y) \<in> budget q m \<Longrightarrow> x \<in> points q \<and> 0 < cov y m"
proof -
  assume "(x, y) \<in> budget q m"
  then obtain f k where f: "f \<in> set (map_at k m)" "(x, y) \<in> allowed q f"
    by (auto simp: budget_def frameset_def)
  then have "x \<in> points q" "y \<in> points (referenceNode f)"
    by (auto simp: allowed_def split: if_splits)
  with cover_pos [OF f(1), of y] cover_le_cov [of y k m] show ?thesis by simp
qed

lemma refrec_frame_step:
  assumes L: "LInv q tk i m" and i: "i < length (map_at tk m)"
    and run: "refrec_frame R q (map_at tk m ! i) m st = Inr (m', st')"
  shows "LInv q tk (i + 1) m'
     \<and> consumes st st' (rest_budget q tk i m) (rest_budget q tk (i + 1) m')"
proof -
  let ?B = "map_at tk m"
  let ?f = "?B ! i"
  let ?n = "referenceNode ?f"
  from L have wf: "wf_map m" and ok: "buckets_ok q m" and tk: "tk \<in> set (keys m)"
    and le: "\<forall>k\<in>set (keys m). k \<le> tk"
    and cv: "\<And>p. cov p m \<le> cover p (take i ?B) + 1"
    by (auto simp: LInv_def)
  have fin: "?f \<in> set ?B" using i by simp
  with ok have sc: "Scale ?n = tk" and fo: "frame_ok q ?f" by (auto simp: buckets_ok_def)
  then have v: "valid_tree ?n" by (simp add: frame_ok_def)
  from refrec_frame_local [OF run v] obtain es where
    m': "m' = push_all es m"
    and es: "\<forall>e\<in>set es. referenceNode e \<in> set (children ?n)
                    \<and> queryIndex e = Point q \<and> cached q e"
    and ces: "\<And>p. cover p es \<le> (if p \<in> points ?n then 1 else 0)"
    and cons: "consumes st st' (allowed q ?f) (budgetL q es)"
    by blast
  have lt: "\<forall>e\<in>set es. Scale (referenceNode e) \<le> tk \<and> valid_tree (referenceNode e)"
    using es valid_children [OF v] sc by auto
  let ?own = "filter (\<lambda>e. Scale (referenceNode e) = tk) es"
  have same: "map_at tk m' = ?B @ ?own"
    by (simp add: m' map_at_push_all)
  have wf': "wf_map m'" using wf by (simp add: m' wf_push_all)
  have ok': "buckets_ok q m'"
    unfolding buckets_ok_def
  proof (intro allI ballI)
    fix k g
    assume "g \<in> set (map_at k m')"
    then consider "g \<in> set (map_at k m)" | "g \<in> set es" "Scale (referenceNode g) = k"
      by (auto simp: m' map_at_push_all)
    then show "Scale (referenceNode g) = k \<and> frame_ok q g"
    proof cases
      case 1
      with ok show ?thesis by (auto simp: buckets_ok_def)
    next
      case 2
      with es lt show ?thesis by (auto simp: frame_ok_def)
    qed
  qed
  have tk': "tk \<in> set (keys m')" using tk by (simp add: m' keys_push_all)
  have le': "\<forall>k\<in>set (keys m'). k \<le> tk"
    using le lt by (auto simp: m' keys_push_all)
  have tk1: "take (i + 1) (?B @ ?own) = take i ?B @ [?f]"
    using i by (simp add: take_Suc_conv_app_nth)
  have cv': "cov p m' \<le> cover p (take (i + 1) (map_at tk m')) + 1" for p
  proof -
    have "cover p (take (i + 1) (map_at tk m'))
        = cover p (take i ?B) + (if p \<in> points ?n then 1 else 0)"
      unfolding same tk1 by simp
    moreover have "cov p m' = cov p m + cover p es" by (simp add: m' cov_push_all)
    ultimately show ?thesis using cv [of p] ces [of p] by simp
  qed
  have L': "LInv q tk (i + 1) m'"
    using wf' ok' tk' le' cv' by (simp add: LInv_def)
  define C where "C = budgetL q (drop (i + 1) ?B) \<union> budget q (map_erase tk m)"
  have dr: "drop i ?B = ?f # drop (i + 1) ?B"
    using i by (simp add: Cons_nth_drop_Suc)
  have rb: "rest_budget q tk i m = allowed q ?f \<union> C"
    by (simp add: rest_budget_def dr C_def Un_assoc)
  have rb': "rest_budget q tk (i + 1) m' = budgetL q es \<union> C"
  proof -
    have "frameset (map_erase tk m')
        = frameset (map_erase tk m) \<union> {e \<in> set es. Scale (referenceNode e) \<noteq> tk}"
      unfolding m' by (auto simp: frameset_map_erase map_at_push_all)
    then have "budget q (map_erase tk m')
        = budget q (map_erase tk m) \<union> budgetL q (filter (\<lambda>e. Scale (referenceNode e) \<noteq> tk) es)"
      by (auto simp: budget_def budgetL_def)
    moreover have "drop (i + 1) (map_at tk m') = drop (i + 1) ?B @ ?own"
      unfolding same using i by simp
    moreover have "budgetL q es = budgetL q ?own
        \<union> budgetL q (filter (\<lambda>e. Scale (referenceNode e) \<noteq> tk) es)"
      by (auto simp: budgetL_def)
    ultimately show ?thesis unfolding rest_budget_def C_def by auto
  qed
  have disj: "C \<inter> allowed q ?f = {}"
  proof -
    have False if a: "(x, y) \<in> allowed q ?f" and c: "(x, y) \<in> C" for x y
    proof -
      from a have y: "y \<in> points ?n" by (auto simp: allowed_def split: if_splits)
      have "cover y ?B = cover y (take i ?B) + cover y (drop i ?B)"
        using cover_append [of y "take i ?B" "drop i ?B"] by simp
      also have "\<dots> = cover y (take i ?B) + 1 + cover y (drop (i + 1) ?B)"
        using y by (simp add: dr)
      finally have "cov y (map_erase tk m) + cover y (drop (i + 1) ?B) = 0"
        using cv [of y] cov_map_erase [of y tk m] by simp
      then have z: "cov y (map_erase tk m) = 0" "cover y (drop (i + 1) ?B) = 0" by simp_all
      from c consider "(x, y) \<in> budgetL q (drop (i + 1) ?B)"
        | "(x, y) \<in> budget q (map_erase tk m)" by (auto simp: C_def)
      then show False
      proof cases
        case 1
        from budgetL_points [OF 1] z(2) show False by simp
      next
        case 2
        from budget_points [OF 2] z(1) show False by simp
      qed
    qed
    then show ?thesis by auto
  qed
  from consumes_frame [OF cons disj]
  have "consumes st st' (rest_budget q tk i m) (rest_budget q tk (i + 1) m')"
    unfolding rb rb' .
  with L' show ?thesis by simp
qed

lemma refrec_frames_budget:
  "refrec_frames R q tk i m st = Inr (m', st') \<Longrightarrow> LInv q tk i m \<Longrightarrow>
     LInv q tk (length (map_at tk m')) m'
     \<and> consumes st st' (rest_budget q tk i m) (budget q (map_erase tk m'))"
proof (induction R q tk i m st rule: refrec_frames.induct)
  case (1 R q t i m st)
  show ?case
  proof (cases "i < length (map_at t m)")
    case True
    with "1.prems"(1) obtain m1 st1 where
      f: "refrec_frame R q (map_at t m ! i) m st = Inr (m1, st1)"
      and r: "refrec_frames R q t (i + 1) m1 st1 = Inr (m', st')"
      by (subst (asm) refrec_frames.simps) (auto split: sum.splits)
    from refrec_frame_step [OF "1.prems"(2) True f]
    have L1: "LInv q t (i + 1) m1"
      and c1: "consumes st st1 (rest_budget q t i m) (rest_budget q t (i + 1) m1)"
      by simp_all
    from "1.IH" [OF True f refl r L1]
    have "LInv q t (length (map_at t m')) m'"
      and c2: "consumes st1 st' (rest_budget q t (i + 1) m1) (budget q (map_erase t m'))"
      by simp_all
    with consumes_trans [OF c1 c2] show ?thesis by simp
  next
    case False
    with "1.prems"(1) have e: "m' = m" "st' = st"
      by (subst (asm) refrec_frames.simps, simp)+
    have "LInv q t (length (map_at t m)) m"
      using "1.prems"(2) False by (simp add: LInv_def)
    moreover have "consumes st st (rest_budget q t i m) (budget q (map_erase t m))"
      by (rule consumes_refl) (simp_all add: rest_budget_def)
    ultimately show ?thesis using e by simp
  qed
qed

lemma budgetL_cong: "set xs = set ys \<Longrightarrow> budgetL q xs = budgetL q ys"
  by (simp add: budgetL_def)

lemma buckets_ok_erase: "buckets_ok q m \<Longrightarrow> buckets_ok q (map_erase k m)"
  by (auto simp: buckets_ok_def map_at_map_erase split: if_splits)

lemma rbegin_in_set: "rbegin m = Some (k, v) \<Longrightarrow> (k, v) \<in> set m"
  by (metis rbegin_Some last_in_set)

lemma rbegin_top:
  assumes "wf_map m" "rbegin m = Some (k, v)" "t \<in> set (keys m)" "\<forall>k'\<in>set (keys m). k' \<le> t"
  shows "k = t"
proof -
  from rbegin_Some [OF assms(2)] have ne: "m \<noteq> []" and l: "last m = (k, v)" by simp_all
  from wf_map_last [OF assms(1) ne assms(3)] l have "t \<le> k" by simp
  moreover have "k \<in> set (keys m)" using rbegin_in_set [OF assms(2)] by (force simp: keys_def)
  ultimately show ?thesis using assms(4) by force
qed

lemma sorted_bucket_LInv:
  assumes I: "Inv q m" and rb: "rbegin m = Some (tk, vec)"
  shows "LInv q tk 0 (map_set tk (sort_key score vec) m)"
    and "rest_budget q tk 0 (map_set tk (sort_key score vec) m) = budget q m"
proof -
  let ?m1 = "map_set tk (sort_key score vec) m"
  from I have wf: "wf_map m" and ok: "buckets_ok q m" and cv: "\<And>p. cov p m \<le> 1"
    by (auto simp: Inv_def)
  from rbegin_Some [OF rb] have ne: "m \<noteq> []" and l: "last m = (tk, vec)" by simp_all
  have vec: "map_at tk m = vec" by (rule wf_map_bucket [OF wf rbegin_in_set [OF rb]])
  have ok1: "buckets_ok q ?m1"
    using ok vec by (auto simp: buckets_ok_def map_at_map_set)
  have le: "\<forall>k\<in>set (keys ?m1). k \<le> tk"
    using wf_map_last [OF wf ne] l by (auto simp: keys_map_set)
  have c1: "cov p ?m1 \<le> 1" for p
    using cov_map_set [of p tk "sort_key score vec" m] cv [of p] by (simp add: vec)
  show "LInv q tk 0 ?m1"
    using wf_map_set [OF wf] ok1 le c1 by (simp add: LInv_def keys_map_set)
  have "frameset (map_erase tk ?m1) = frameset (map_erase tk m)"
    by (auto simp: frameset_map_erase map_at_map_set)
  then have "budget q (map_erase tk ?m1) = budget q (map_erase tk m)"
    by (simp add: budget_def)
  moreover have "budgetL q (sort_key score vec) = budgetL q vec"
    by (rule budgetL_cong) simp
  ultimately show "rest_budget q tk 0 ?m1 = budget q m"
    using budget_split [of q m tk] by (simp add: rest_budget_def map_at_map_set vec)
qed

lemma erase_top_Inv:
  assumes L: "LInv q tk (length (map_at tk m)) m" and rb: "rbegin m = Some (top2, vec2)"
  shows "top2 = tk" and "Inv q (map_erase tk m)"
proof -
  from L have wf: "wf_map m" and ok: "buckets_ok q m" and tk: "tk \<in> set (keys m)"
    and le: "\<forall>k\<in>set (keys m). k \<le> tk"
    and cv: "\<And>p. cov p m \<le> cover p (map_at tk m) + 1"
    by (auto simp: LInv_def)
  show "top2 = tk" by (rule rbegin_top [OF wf rb tk le])
  have "cov p (map_erase tk m) \<le> 1" for p
    using cov_map_erase [of p tk m] cv [of p] by simp
  then show "Inv q (map_erase tk m)"
    using wf_map_erase [OF wf] buckets_ok_erase [OF ok] by (simp add: Inv_def)
qed

lemma ReferenceRecursion_budget:
  assumes "ReferenceRecursion R q m st = Some y" "Inv q m"
  shows "\<forall>m' st'. y = Inr (m', st') \<longrightarrow> Inv q m' \<and> consumes st st' (budget q m) (budget q m')"
proof -
  have "Inv q m \<longrightarrow> (\<forall>m' st'. y = Inr (m', st') \<longrightarrow>
           Inv q m' \<and> consumes st st' (budget q m) (budget q m'))"
  proof (rule ReferenceRecursion.raw_induct
      [where P = "\<lambda>R q m st y. Inv q m \<longrightarrow> (\<forall>m' st'. y = Inr (m', st') \<longrightarrow>
           Inv q m' \<and> consumes st st' (budget q m) (budget q m'))", OF _ assms(1)])
    fix rr :: "'a rules \<Rightarrow> CoverTree \<Rightarrow> refmap \<Rightarrow> 'a trav \<Rightarrow> (error + refmap \<times> 'a trav) option"
    fix R q m st y
    assume IH: "\<And>R q m st y. rr R q m st = Some y \<Longrightarrow>
        Inv q m \<longrightarrow> (\<forall>m' st'. y = Inr (m', st') \<longrightarrow>
           Inv q m' \<and> consumes st st' (budget q m) (budget q m'))"
    assume body: "(case rbegin m of None \<Rightarrow> Some (Inl EmptyMapDeref)
      | Some (tk, vec) \<Rightarrow>
          if Scale q < tk
          then if Scale q = INT_MIN \<and> tk = INT_MIN then Some (Inr (m, st))
               else case refrec_frames R q tk 0
                          (map_set tk (sort_key score vec) m) st of
                    Inl e \<Rightarrow> Some (Inl e)
                    | Inr (m2, st2) \<Rightarrow>
                        case rbegin m2 of None \<Rightarrow> Some (Inl EmptyMapDeref)
                        | Some (top2, vec2) \<Rightarrow>
                            rr R q (map_erase top2 m2) st2
          else Some (Inr (m, st))) = Some y"
    show "Inv q m \<longrightarrow> (\<forall>m' st'. y = Inr (m', st') \<longrightarrow>
           Inv q m' \<and> consumes st st' (budget q m) (budget q m'))"
    proof
      assume I: "Inv q m"
      have stay: "y = Inr (m, st) \<Longrightarrow> \<forall>m' st'. y = Inr (m', st') \<longrightarrow>
           Inv q m' \<and> consumes st st' (budget q m) (budget q m')"
        using I by (simp add: consumes_refl)
      show "\<forall>m' st'. y = Inr (m', st') \<longrightarrow>
           Inv q m' \<and> consumes st st' (budget q m) (budget q m')"
      proof (cases "rbegin m")
        case None
        with body show ?thesis by auto
      next
        case (Some p)
        obtain tk vec where p: "p = (tk, vec)" by (cases p)
        from Some p have rb: "rbegin m = Some (tk, vec)" by simp
        show ?thesis
        proof (cases "Scale q < tk \<and> \<not> (Scale q = INT_MIN \<and> tk = INT_MIN)")
          case False
          with body rb have "y = Inr (m, st)" by (auto split: if_splits)
          then show ?thesis by (rule stay)
        next
          case True
          show ?thesis
          proof (cases "refrec_frames R q tk 0 (map_set tk (sort_key score vec) m) st")
            case (Inl e)
            with body rb True show ?thesis by auto
          next
            case (Inr r)
            obtain m2 st2 where r: "r = (m2, st2)" by (cases r)
            from Inr r have run: "refrec_frames R q tk 0 (map_set tk (sort_key score vec) m) st
                = Inr (m2, st2)" by simp
            from refrec_frames_budget [OF run sorted_bucket_LInv(1) [OF I rb]]
            have L2: "LInv q tk (length (map_at tk m2)) m2"
              and c2: "consumes st st2 (budget q m) (budget q (map_erase tk m2))"
              by (simp_all add: sorted_bucket_LInv(2) [OF I rb])
            show ?thesis
            proof (cases "rbegin m2")
              case None
              with body rb True run show ?thesis by auto
            next
              case s2: (Some p2)
              obtain top2 vec2 where p2: "p2 = (top2, vec2)" by (cases p2)
              from s2 p2 have rb2: "rbegin m2 = Some (top2, vec2)" by simp
              from erase_top_Inv [OF L2 rb2] have t2: "top2 = tk"
                and I3: "Inv q (map_erase tk m2)" by simp_all
              from body rb True run rb2 t2
              have "rr R q (map_erase tk m2) st2 = Some y" by auto
              from IH [OF this] I3
              have "\<forall>m' st'. y = Inr (m', st') \<longrightarrow>
                 Inv q m' \<and> consumes st2 st' (budget q (map_erase tk m2)) (budget q m')"
                by blast
              with c2 show ?thesis by (blast intro: consumes_trans)
            qed
          qed
        qed
      qed
    qed
  qed
  with assms(2) show ?thesis by blast
qed

subsection \<open>The budget over the frames of one bucket\<close>

lemma budgetL_disjoint:
  assumes "\<forall>p. cover p (f # rest) \<le> 1" "A \<subseteq> allowed q f"
  shows "budgetL q' rest \<inter> A = {}"
proof -
  have False if a: "(x, y) \<in> budgetL q' rest" and b: "(x, y) \<in> A" for x y
  proof -
    from b assms(2) have "y \<in> points (referenceNode f)"
      by (auto simp: allowed_def split: if_splits)
    moreover from budgetL_points [OF a] have "0 < cover y rest" by simp
    ultimately show False using assms(1) [rule_format, of y] by simp
  qed
  then show ?thesis by auto
qed

lemma consumes_post: "consumes st st' B B' \<Longrightarrow> B' \<subseteq> B"
  by (auto simp: consumes_def)

lemma frame_step_budget:
  assumes cv: "\<forall>p. cover p (f # rest) \<le> 1"
    and c1: "consumes st st1 (allowed q f) E"
    and c2: "consumes st1 st2 (budgetL q rest) F"
  shows "consumes st st2 (budgetL q (f # rest)) (E \<union> F)"
proof -
  have d1: "budgetL q rest \<inter> allowed q f = {}"
    by (rule budgetL_disjoint [OF cv subset_refl])
  have d2: "E \<inter> budgetL q rest = {}"
    using budgetL_disjoint [OF cv consumes_post [OF c1], of q] by auto
  from consumes_frame [OF c1 d1]
  have a: "consumes st st1 (budgetL q (f # rest)) (E \<union> budgetL q rest)" by simp
  from consumes_frame [OF c2 d2]
  have "consumes st1 st2 (E \<union> budgetL q rest) (E \<union> F)" by (simp add: Un_commute)
  with a show ?thesis by (rule consumes_trans)
qed

lemma cover_tl: "\<forall>p. cover p (f # rest) \<le> 1 \<Longrightarrow> \<forall>p. cover p rest \<le> 1"
proof
  fix p
  assume a: "\<forall>p. cover p (f # rest) \<le> 1"
  have "cover p rest \<le> cover p (f # rest)" by simp
  with a show "cover p rest \<le> 1" using le_trans by blast
qed

lemma fresh_frame_budget:
  assumes r: "callRescore R c (referenceNode f) old st = (rs, st1)"
    and b: "callBaseCase R (Point c) (Point (referenceNode f)) st1 = (bc, st2)"
    and s: "callScore R c (referenceNode f) bc st2 = (sc, st3)"
    and nc: "\<not> cached c f"
  shows "consumes st st3 (allowed c f)
           (points c \<times> points (referenceNode f) - {(Point c, Point (referenceNode f))})"
proof -
  have al: "allowed c f = points c \<times> points (referenceNode f)"
    using nc by (simp add: allowed_def)
  have "consumes st1 st2 (allowed c f) (allowed c f - {(Point c, Point (referenceNode f))})"
    by (rule consumes_callBaseCase [OF b]) (simp add: al)
  from consumes_trans [OF consumes_callRescore [OF r]
      consumes_trans [OF this consumes_callScore [OF s]]]
  show ?thesis by (simp add: al)
qed

lemma allowed_updated:
  "allowed c (f\<lparr>score := sc, baseCase := bc, referenceIndex := Point (referenceNode f),
               queryIndex := Point c\<rparr>)
     = points c \<times> points (referenceNode f) - {(Point c, Point (referenceNode f))}"
  by (simp add: allowed_def cached_def)

lemma allowed_updated':
  "allowed c (f\<lparr>score := sc, baseCase := bc, queryIndex := Point c,
               referenceIndex := Point (referenceNode f)\<rparr>)
     = points c \<times> points (referenceNode f) - {(Point c, Point (referenceNode f))}"
  by (simp add: allowed_def cached_def)

lemma prunemap_frames_budget:
  assumes "\<forall>f\<in>set fs. \<not> cached c f" "\<forall>p. cover p fs \<le> 1"
  shows "\<exists>es. fst (prunemap_frames R c fs new st) = new @ es
     \<and> (\<forall>e\<in>set es. \<exists>f\<in>set fs. referenceNode e = referenceNode f \<and> queryIndex e = Point c)
     \<and> (\<forall>p. cover p es \<le> cover p fs)
     \<and> consumes st (snd (prunemap_frames R c fs new st)) (budgetL c fs) (budgetL c es)"
  using assms
proof (induction fs arbitrary: new st)
  case Nil
  show ?case by (intro exI [of _ "[]"]) (simp add: consumes_refl)
next
  case (Cons f rest)
  let ?n = "referenceNode f"
  from Cons.prems have nc: "\<not> cached c f" and ncr: "\<forall>f\<in>set rest. \<not> cached c f"
    and cv: "\<forall>p. cover p (f # rest) \<le> 1" by simp_all
  note cvr = cover_tl [OF cv]
  obtain rs st1 where r: "callRescore R c ?n (score f) st = (rs, st1)"
    by (cases "callRescore R c ?n (score f) st")
  obtain bc st2 where b: "callBaseCase R (Point c) (Point ?n) st1 = (bc, st2)"
    by (cases "callBaseCase R (Point c) (Point ?n) st1")
  obtain sc st3 where s: "callScore R c ?n bc st2 = (sc, st3)"
    by (cases "callScore R c ?n bc st2")
  define e where "e = f\<lparr>score := sc, baseCase := bc, referenceIndex := Point ?n,
                         queryIndex := Point c\<rparr>"
  have pruned: ?case
    if run: "prunemap_frames R c (f # rest) new st = prunemap_frames R c rest new st'"
      and c1: "consumes st st' (allowed c f) {}" for st'
  proof -
    from Cons.IH [OF ncr cvr, of new st'] obtain es where
      es: "fst (prunemap_frames R c rest new st') = new @ es"
        "\<forall>e\<in>set es. \<exists>f\<in>set rest. referenceNode e = referenceNode f \<and> queryIndex e = Point c"
        "\<forall>p. cover p es \<le> cover p rest"
        "consumes st' (snd (prunemap_frames R c rest new st')) (budgetL c rest) (budgetL c es)"
      by blast
    from frame_step_budget [OF cv c1 es(4)]
    have "consumes st (snd (prunemap_frames R c (f # rest) new st)) (budgetL c (f # rest))
        (budgetL c es)" unfolding run by simp
    moreover have "\<forall>p. cover p es \<le> cover p (f # rest)"
      using es(3) by (auto intro: le_trans)
    ultimately show ?thesis unfolding run using es(1,2) by (intro exI [of _ es]) auto
  qed
  show ?case
  proof (cases "rs = DBL_MAX")
    case True
    have "consumes st (prune 1 st1) (allowed c f) {}"
      by (rule consumes_prune, rule consumes_weaken [OF consumes_callRescore [OF r, where B = "allowed c f"]]) simp_all
    moreover have "prunemap_frames R c (f # rest) new st
        = prunemap_frames R c rest new (prune 1 st1)"
      using r True by (simp add: Let_def)
    ultimately show ?thesis by (rule pruned [rotated])
  next
    case rsF: False
    note c3 = fresh_frame_budget [OF r b s nc]
    show ?thesis
    proof (cases "sc = DBL_MAX")
      case True
      have "consumes st (prune 1 st3) (allowed c f) {}"
        by (rule consumes_prune, rule consumes_weaken [OF c3]) simp_all
      moreover have "prunemap_frames R c (f # rest) new st
          = prunemap_frames R c rest new (prune 1 st3)"
        using r rsF b s True by (simp add: Let_def)
      ultimately show ?thesis by (rule pruned [rotated])
    next
      case False
      have run: "prunemap_frames R c (f # rest) new st
          = prunemap_frames R c rest (new @ [e]) st3"
        using r rsF b s False by (simp add: Let_def e_def)
      from Cons.IH [OF ncr cvr, of "new @ [e]" st3] obtain es where
        es: "fst (prunemap_frames R c rest (new @ [e]) st3) = (new @ [e]) @ es"
          "\<forall>e\<in>set es. \<exists>f\<in>set rest. referenceNode e = referenceNode f \<and> queryIndex e = Point c"
          "\<forall>p. cover p es \<le> cover p rest"
          "consumes st3 (snd (prunemap_frames R c rest (new @ [e]) st3)) (budgetL c rest)
             (budgetL c es)"
        by blast
      have ae: "allowed c e = points c \<times> points ?n - {(Point c, Point ?n)}"
        unfolding e_def by (rule allowed_updated)
      from c3 have c3': "consumes st st3 (allowed c f) (allowed c e)" by (simp add: ae)
      from frame_step_budget [OF cv c3' es(4)]
      have "consumes st (snd (prunemap_frames R c (f # rest) new st)) (budgetL c (f # rest))
          (budgetL c (e # es))" unfolding run by simp
      moreover have "\<forall>p. cover p (e # es) \<le> cover p (f # rest)"
        using es(3) by (simp add: e_def)
      moreover have "\<forall>x\<in>set (e # es). \<exists>f\<in>set (f # rest).
          referenceNode x = referenceNode f \<and> queryIndex x = Point c"
        using es(2) by (auto simp: e_def)
      moreover have "fst (prunemap_frames R c (f # rest) new st) = new @ (e # es)"
        unfolding run using es(1) by simp
      ultimately show ?thesis by blast
    qed
  qed
qed

lemma selfchild_frames_budget:
  assumes "\<forall>p. cover p fs \<le> 1"
  shows "\<exists>es. fst (selfchild_frames R c fs new st) = new @ es
     \<and> (\<forall>e\<in>set es. \<exists>f\<in>set fs. referenceNode e = referenceNode f \<and> queryIndex e = Point c)
     \<and> (\<forall>p. cover p es \<le> cover p fs)
     \<and> consumes st (snd (selfchild_frames R c fs new st)) (budgetL c fs) (budgetL c es)"
  using assms
proof (induction fs arbitrary: new st)
  case Nil
  show ?case by (intro exI [of _ "[]"]) (simp add: consumes_refl)
next
  case (Cons f rest)
  let ?n = "referenceNode f"
  from Cons.prems have cv: "\<forall>p. cover p (f # rest) \<le> 1" by simp
  note cvr = cover_tl [OF cv]
  have pruned: ?case
    if run: "selfchild_frames R c (f # rest) new st = selfchild_frames R c rest new st'"
      and c1: "consumes st st' (allowed c f) {}" for st'
  proof -
    from Cons.IH [OF cvr, of new st'] obtain es where
      es: "fst (selfchild_frames R c rest new st') = new @ es"
        "\<forall>e\<in>set es. \<exists>f\<in>set rest. referenceNode e = referenceNode f \<and> queryIndex e = Point c"
        "\<forall>p. cover p es \<le> cover p rest"
        "consumes st' (snd (selfchild_frames R c rest new st')) (budgetL c rest) (budgetL c es)"
      by blast
    from frame_step_budget [OF cv c1 es(4)]
    have "consumes st (snd (selfchild_frames R c (f # rest) new st)) (budgetL c (f # rest))
        (budgetL c es)" unfolding run by simp
    moreover have "\<forall>p. cover p es \<le> cover p (f # rest)"
      using es(3) by (auto intro: le_trans)
    ultimately show ?thesis unfolding run using es(1,2) by (intro exI [of _ es]) auto
  qed
  have kept: ?case
    if run: "selfchild_frames R c (f # rest) new st
         = selfchild_frames R c rest
             (new @ [f\<lparr>score := sc, baseCase := bc, queryIndex := Point c,
                        referenceIndex := Point ?n\<rparr>]) st'"
      and c1: "consumes st st' (allowed c f) (points c \<times> points ?n - {(Point c, Point ?n)})"
    for st' sc bc
  proof -
    define e where "e = f\<lparr>score := sc, baseCase := bc, queryIndex := Point c,
                        referenceIndex := Point ?n\<rparr>"
    from Cons.IH [OF cvr, of "new @ [e]" st'] obtain es where
      es: "fst (selfchild_frames R c rest (new @ [e]) st') = (new @ [e]) @ es"
        "\<forall>e\<in>set es. \<exists>f\<in>set rest. referenceNode e = referenceNode f \<and> queryIndex e = Point c"
        "\<forall>p. cover p es \<le> cover p rest"
        "consumes st' (snd (selfchild_frames R c rest (new @ [e]) st')) (budgetL c rest)
           (budgetL c es)"
      by blast
    have ae: "allowed c e = points c \<times> points ?n - {(Point c, Point ?n)}"
      unfolding e_def by (rule allowed_updated')
    from c1 have c1': "consumes st st' (allowed c f) (allowed c e)" by (simp add: ae)
    from frame_step_budget [OF cv c1' es(4)]
    have "consumes st (snd (selfchild_frames R c (f # rest) new st)) (budgetL c (f # rest))
        (budgetL c (e # es))" unfolding run e_def [symmetric] by simp
    moreover have "\<forall>p. cover p (e # es) \<le> cover p (f # rest)"
      using es(3) by (simp add: e_def)
    moreover have "\<forall>x\<in>set (e # es). \<exists>f\<in>set (f # rest).
        referenceNode x = referenceNode f \<and> queryIndex x = Point c"
      using es(2) by (auto simp: e_def)
    moreover have "fst (selfchild_frames R c (f # rest) new st) = new @ (e # es)"
      unfolding run e_def [symmetric] using es(1) by simp
    ultimately show ?thesis by blast
  qed
  show ?case
  proof (cases "cached c f")
    case True
    obtain sc st3 where s: "callScore R c ?n (baseCase f) st = (sc, st3)"
      by (cases "callScore R c ?n (baseCase f) st")
    have al: "allowed c f = points c \<times> points ?n - {(Point c, Point ?n)}"
      using True by (simp add: allowed_def)
    have c3: "consumes st st3 (allowed c f) (points c \<times> points ?n - {(Point c, Point ?n)})"
      using consumes_callScore [OF s, of "allowed c f"] by (simp add: al)
    show ?thesis
    proof (cases "sc = DBL_MAX")
      case scT: True
      have "consumes st (prune 1 st3) (allowed c f) {}"
        by (rule consumes_prune, rule consumes_weaken [OF c3]) simp_all
      moreover have "selfchild_frames R c (f # rest) new st
          = selfchild_frames R c rest new (prune 1 st3)"
        using True s scT by (simp add: Let_def cached_def)
      ultimately show ?thesis by (rule pruned [rotated])
    next
      case False
      have "selfchild_frames R c (f # rest) new st
         = selfchild_frames R c rest
             (new @ [f\<lparr>score := sc, baseCase := baseCase f, queryIndex := Point c,
                        referenceIndex := Point ?n\<rparr>]) st3"
        using True s False by (simp add: Let_def cached_def)
      then show ?thesis using c3 by (rule kept)
    qed
  next
    case nc: False
    obtain rs st1 where r: "callRescore R c ?n (score f) st = (rs, st1)"
      by (cases "callRescore R c ?n (score f) st")
    obtain bc st2 where b: "callBaseCase R (Point c) (Point ?n) st1 = (bc, st2)"
      by (cases "callBaseCase R (Point c) (Point ?n) st1")
    obtain sc st3 where s: "callScore R c ?n bc st2 = (sc, st3)"
      by (cases "callScore R c ?n bc st2")
    from nc have cond: "referenceIndex f \<noteq> Point ?n \<or> queryIndex f \<noteq> Point c"
      by (simp add: cached_def)
    show ?thesis
    proof (cases "rs = DBL_MAX")
      case True
      have "consumes st (prune 1 st1) (allowed c f) {}"
        by (rule consumes_prune, rule consumes_weaken [OF consumes_callRescore [OF r, where B = "allowed c f"]])
          simp_all
      moreover have "selfchild_frames R c (f # rest) new st
          = selfchild_frames R c rest new (prune 1 st1)"
        using cond r True by (simp add: Let_def)
      ultimately show ?thesis by (rule pruned [rotated])
    next
      case rsF: False
      note c3 = fresh_frame_budget [OF r b s nc]
      show ?thesis
      proof (cases "sc = DBL_MAX")
        case True
        have "consumes st (prune 1 st3) (allowed c f) {}"
          by (rule consumes_prune, rule consumes_weaken [OF c3]) simp_all
        moreover have "selfchild_frames R c (f # rest) new st
            = selfchild_frames R c rest new (prune 1 st3)"
          using cond r rsF b s True by (simp add: Let_def)
        ultimately show ?thesis by (rule pruned [rotated])
      next
        case False
        have "selfchild_frames R c (f # rest) new st
           = selfchild_frames R c rest
               (new @ [f\<lparr>score := sc, baseCase := bc, queryIndex := Point c,
                          referenceIndex := Point ?n\<rparr>]) st3"
          using cond r rsF b s False by (simp add: Let_def)
        then show ?thesis using c3 by (rule kept)
      qed
    qed
  qed
qed

lemma leaf_frames_budget:
  assumes "\<forall>p. cover p fs \<le> 1"
  shows "consumes st (leaf_frames R q fs st) (budgetL q fs) {}"
  using assms
proof (induction fs arbitrary: st)
  case Nil
  show ?case by (simp add: consumes_refl)
next
  case (Cons f rest)
  let ?n = "referenceNode f"
  from Cons.prems have cv: "\<forall>p. cover p (f # rest) \<le> 1" by simp
  note cvr = cover_tl [OF cv]
  have step: ?case
    if run: "leaf_frames R q (f # rest) st = leaf_frames R q rest st'"
      and c1: "consumes st st' (allowed q f) {}" for st'
    unfolding run using frame_step_budget [OF cv c1 Cons.IH [OF cvr, of st']] by simp
  show ?case
  proof (cases "cached q f")
    case True
    have "consumes st (prune 1 st) (allowed q f) {}"
      by (rule consumes_prune, rule consumes_refl) simp_all
    moreover have "leaf_frames R q (f # rest) st = leaf_frames R q rest (prune 1 st)"
      using True by (simp add: Let_def cached_def)
    ultimately show ?thesis by (rule step [rotated])
  next
    case nc: False
    obtain rs st1 where r: "callRescore R q ?n (score f) st = (rs, st1)"
      by (cases "callRescore R q ?n (score f) st")
    from nc have cond: "\<not> (referenceIndex f = Point ?n \<and> queryIndex f = Point q)"
      by (simp add: cached_def)
    show ?thesis
    proof (cases "rs = DBL_MAX")
      case True
      have "consumes st (prune 1 st1) (allowed q f) {}"
        by (rule consumes_prune, rule consumes_weaken [OF consumes_callRescore [OF r, where B = "allowed q f"]])
          simp_all
      moreover have "leaf_frames R q (f # rest) st = leaf_frames R q rest (prune 1 st1)"
        using cond r True by (auto simp: Let_def)
      ultimately show ?thesis by (rule step [rotated])
    next
      case False
      obtain bc st2 where b: "callBaseCase R (Point q) (Point ?n) st1 = (bc, st2)"
        by (cases "callBaseCase R (Point q) (Point ?n) st1")
      have al: "allowed q f = points q \<times> points ?n" using nc by (simp add: allowed_def)
      have "consumes st1 st2 (allowed q f) (allowed q f - {(Point q, Point ?n)})"
        by (rule consumes_callBaseCase [OF b]) (simp add: al)
      from consumes_trans [OF consumes_callRescore [OF r] this]
      have "consumes st st2 (allowed q f) {}"
        by (rule consumes_weaken) simp_all
      moreover have "leaf_frames R q (f # rest) st = leaf_frames R q rest st2"
        using cond r False b by (auto simp: Let_def)
      ultimately show ?thesis by (rule step [rotated])
    qed
  qed
qed

subsection \<open>The budget in PruneMapForSelfChild\<close>

lemma replace_bucket:
  assumes I: "Inv c m"
    and new: "\<forall>e\<in>set new. \<exists>f\<in>set (map_at k m).
                 referenceNode e = referenceNode f \<and> queryIndex e = Point c"
    and cv: "\<forall>p. cover p new \<le> cover p (map_at k m)"
    and cons: "consumes st st' (budgetL c (map_at k m)) (budgetL c new)"
    and m': "m' = map_set k new m \<or> (new = [] \<and> m' = map_erase k m)"
  shows "Inv c m' \<and> consumes st st' (budget c m) (budget c m')"
proof -
  from I have wf: "wf_map m" and ok: "buckets_ok c m" and c1: "\<And>p. cov p m \<le> 1"
    by (auto simp: Inv_def)
  have at: "map_at k' m' = (if k' = k then new else map_at k' m)" for k'
    using m' by (auto simp: map_at_map_set map_at_map_erase)
  have wf': "wf_map m'" using m' wf by (auto simp: wf_map_set wf_map_erase)
  have ok': "buckets_ok c m'"
    unfolding buckets_ok_def
  proof (intro allI ballI)
    fix k' g
    assume g: "g \<in> set (map_at k' m')"
    show "Scale (referenceNode g) = k' \<and> frame_ok c g"
    proof (cases "k' = k")
      case True
      with g have "g \<in> set new" by (simp add: at)
      with new obtain f where f: "f \<in> set (map_at k m)" "referenceNode g = referenceNode f"
        "queryIndex g = Point c" by blast
      from ok f(1) have "Scale (referenceNode f) = k" "frame_ok c f"
        by (auto simp: buckets_ok_def)
      with f(2,3) True show ?thesis by (simp add: frame_ok_def)
    next
      case False
      with g ok show ?thesis by (auto simp: at buckets_ok_def)
    qed
  qed
  have cle: "cov p m' \<le> cov p m" for p
  proof -
    from m' show ?thesis
    proof
      assume "m' = map_set k new m"
      then show ?thesis using cov_map_set [of p k new m] cv [rule_format, of p] by simp
    next
      assume "new = [] \<and> m' = map_erase k m"
      then show ?thesis using cov_map_erase [of p k m] by simp
    qed
  qed
  have I': "Inv c m'"
    using wf' ok' cle c1 by (auto simp: Inv_def intro: le_trans)
  have "frameset (map_erase k m') = frameset (map_erase k m)"
    by (auto simp: frameset_map_erase at)
  then have be: "budget c (map_erase k m') = budget c (map_erase k m)"
    by (simp add: budget_def)
  have b: "budget c m = budgetL c (map_at k m) \<union> budget c (map_erase k m)"
    by (rule budget_split)
  have b': "budget c m' = budgetL c new \<union> budget c (map_erase k m)"
    using budget_split [of c m' k] by (simp add: at be)
  have disj: "budget c (map_erase k m) \<inter> budgetL c (map_at k m) = {}"
  proof -
    have False if x: "(x, y) \<in> budget c (map_erase k m)"
      and y: "(x, y) \<in> budgetL c (map_at k m)" for x y
      using budget_points [OF x] budgetL_points [OF y] cov_map_erase [of y k m] c1 [of y]
      by simp
    then show ?thesis by auto
  qed
  from consumes_frame [OF cons disj] have "consumes st st' (budget c m) (budget c m')"
    by (simp add: b b')
  with I' show ?thesis by simp
qed

lemma selfchild_scales_budget:
  "selfchild_scales R c b m st = Inr (m', st') \<Longrightarrow> Inv c m \<Longrightarrow>
     Inv c m' \<and> consumes st st' (budget c m) (budget c m')"
proof (induction R c b m st rule: selfchild_scales.induct)
  case (1 R c b m st)
  note run = "1.prems"(1) and I = "1.prems"(2)
  have stay: ?case if "m' = m" "st' = st"
    using that I by (simp add: consumes_refl)
  show ?case
  proof (cases "rdesig b m")
    case None
    with run have "m' = m" "st' = st"
      by (subst (asm) selfchild_scales.simps, simp)+
    then show ?thesis by (rule stay)
  next
    case (Some p)
    obtain k vec where p: "p = (k, vec)" by (cases p)
    from Some p have rd: "rdesig b m = Some (k, vec)" by simp
    show ?thesis
    proof (cases "k = INT_MIN")
      case True
      with run rd have "m' = m" "st' = st"
        by (subst (asm) selfchild_scales.simps, simp)+
      then show ?thesis by (rule stay)
    next
      case kF: False
      obtain new st1 where sf: "selfchild_frames R c vec [] st = (new, st1)"
        by (cases "selfchild_frames R c vec [] st")
      from I have wf: "wf_map m" and c1: "\<And>p. cov p m \<le> 1" by (auto simp: Inv_def)
      from rdesig_SomeD [OF rd] have "(k, vec) \<in> set m" by simp
      from wf_map_bucket [OF wf this] have vec: "map_at k m = vec" .
      have cvv: "\<forall>p. cover p vec \<le> 1"
        using cover_le_cov [of _ k m] c1 vec le_trans by metis
      from selfchild_frames_budget [OF cvv, of R c "[]" st] sf
      have new: "\<forall>e\<in>set new. \<exists>f\<in>set (map_at k m).
                 referenceNode e = referenceNode f \<and> queryIndex e = Point c"
        and cvn: "\<forall>p. cover p new \<le> cover p (map_at k m)"
        and cons: "consumes st st1 (budgetL c (map_at k m)) (budgetL c new)"
        by (auto simp: vec)
      show ?thesis
      proof (cases "new = []")
        case True
        from replace_bucket [OF I new cvn cons, of "map_erase k m"] True
        have I1: "Inv c (map_erase k m)"
          and c1: "consumes st st1 (budget c m) (budget c (map_erase k m))" by simp_all
        show ?thesis
        proof (cases "map_erase k m = []")
          case e: True
          with run rd kF sf True have "m' = map_erase k m" "st' = st1"
            by (subst (asm) selfchild_scales.simps, simp)+
          with I1 c1 show ?thesis by simp
        next
          case e: False
          show ?thesis
          proof (cases "rdesig b (map_erase k m)")
            case None
            with run rd kF sf True e have False
              by (subst (asm) selfchild_scales.simps) simp
            then show ?thesis ..
          next
            case s2: (Some p2)
            obtain k' v' where p2: "p2 = (k', v')" by (cases p2)
            from run rd kF sf True e s2 p2
            have r: "selfchild_scales R c (Some k') (map_erase k m) st1 = Inr (m', st')"
              by (subst (asm) selfchild_scales.simps) simp
            from "1.IH"(1) [OF rd refl kF sf [symmetric] True e _ refl r I1] s2 p2
            have "Inv c m' \<and> consumes st1 st' (budget c (map_erase k m)) (budget c m')"
              by simp
            with c1 show ?thesis by (blast intro: consumes_trans)
          qed
        qed
      next
        case False
        from replace_bucket [OF I new cvn cons, of "map_set k new m"]
        have I1: "Inv c (map_set k new m)"
          and c1: "consumes st st1 (budget c m) (budget c (map_set k new m))" by simp_all
        from run rd kF sf False
        have r: "selfchild_scales R c (Some k) (map_set k new m) st1 = Inr (m', st')"
          by (subst (asm) selfchild_scales.simps) simp
        from "1.IH"(2) [OF rd refl kF sf [symmetric] False r I1]
        have "Inv c m' \<and> consumes st1 st' (budget c (map_set k new m)) (budget c m')" .
        with c1 show ?thesis by (blast intro: consumes_trans)
      qed
    qed
  qed
qed

lemma PruneMapForSelfChild_budget:
  assumes "PruneMapForSelfChild R c m st = Inr (m', st')" "Inv c m"
  shows "Inv c m' \<and> consumes st st' (budget c m) (budget c m')"
proof (cases "m = []")
  case True
  with assms show ?thesis by (simp add: PruneMapForSelfChild_def consumes_refl)
next
  case False
  with assms(1) have "selfchild_scales R c None m st = Inr (m', st')"
    by (simp add: PruneMapForSelfChild_def)
  from selfchild_scales_budget [OF this assms(2)] show ?thesis .
qed

subsection \<open>The budget in PruneMap\<close>

lemma lcov_Nil [simp]: "lcov p [] = 0"
  by (simp add: lcov_def)

lemma lcov_Cons [simp]: "lcov p (kv # xs) = cover p (snd kv) + lcov p xs"
  by (simp add: lcov_def)

lemma lcov_rev [simp]: "lcov p (rev xs) = lcov p xs"
  by (induction xs) (simp_all add: lcov_def)

lemma budgetP_Nil [simp]: "budgetP c [] = {}"
  by (simp add: budgetP_def)

lemma budgetP_Cons [simp]: "budgetP c (kv # xs) = budgetL c (snd kv) \<union> budgetP c xs"
  by (simp add: budgetP_def)

lemma budgetP_points: "(x, y) \<in> budgetP c xs \<Longrightarrow> 0 < lcov y xs"
proof (induction xs)
  case Nil
  then show ?case by simp
next
  case (Cons kv xs)
  then show ?case using budgetL_points [of x y c "snd kv"] by auto
qed

lemma cov_conv_lcov:
  assumes "wf_map m"
  shows "cov p m = lcov p m"
proof -
  have d: "distinct (keys m)" using wf_map_distinct [OF assms] by (simp add: keys_def)
  have "cov p m = sum_list (map (\<lambda>k. cover p (map_at k m)) (keys m))"
    unfolding cov_def using d by (simp add: sum_list_distinct_conv_sum_set)
  also have "\<dots> = sum_list (map (\<lambda>kv. cover p (map_at (fst kv) m)) m)"
    by (simp add: keys_def comp_def)
  also have "\<dots> = sum_list (map (\<lambda>kv. cover p (snd kv)) m)"
  proof -
    have "map (\<lambda>kv. cover p (map_at (fst kv) m)) m = map (\<lambda>kv. cover p (snd kv)) m"
    proof (rule map_cong [OF refl])
      fix kv
      assume "kv \<in> set m"
      then have "(fst kv, snd kv) \<in> set m" by simp
      from wf_map_bucket [OF assms this] show "cover p (map_at (fst kv) m) = cover p (snd kv)"
        by simp
    qed
    then show ?thesis by (rule arg_cong)
  qed
  finally show ?thesis by (simp add: lcov_def)
qed

lemma lcov_takeWhile_le: "lcov p (takeWhile P xs) \<le> lcov p (filter P xs)"
  by (induction xs) simp_all

lemma lcov_takeWhile:
  assumes "wf_map m"
  shows "lcov p (takeWhile (\<lambda>kv. fst kv \<noteq> k) (rev m)) + cover p (map_at k m) \<le> cov p m"
proof -
  have "lcov p (takeWhile (\<lambda>kv. fst kv \<noteq> k) (rev m))
      \<le> lcov p (filter (\<lambda>kv. fst kv \<noteq> k) (rev m))"
    by (rule lcov_takeWhile_le)
  also have "\<dots> = lcov p (map_erase k m)"
    by (simp add: map_erase_def rev_filter [symmetric])
  also have "\<dots> = cov p (map_erase k m)"
    by (simp add: cov_conv_lcov [OF wf_map_erase [OF assms]])
  finally show ?thesis using cov_map_erase [of p k m] by simp
qed

lemma prunemap_scales_takeWhile:
  "prunemap_scales R c xs cm st
     = prunemap_scales R c (takeWhile (\<lambda>kv. fst kv \<noteq> INT_MIN) xs) cm st"
proof (induction xs arbitrary: cm st)
  case Nil
  show ?case by simp
next
  case (Cons kv xs)
  obtain k v where kv: "kv = (k, v)" by (cases kv)
  show ?case
    unfolding kv using Cons.IH by (simp add: Let_def split: prod.splits)
qed

lemma prunemap_scales_budget:
  assumes "\<forall>kv\<in>set xs. fst kv \<noteq> INT_MIN
             \<and> (\<forall>f\<in>set (snd kv). Scale (referenceNode f) = fst kv
                   \<and> valid_tree (referenceNode f) \<and> \<not> cached c f)"
    "wf_map cm" "buckets_ok c cm" "\<forall>p. cov p cm + lcov p xs \<le> 1"
  shows "wf_map (fst (prunemap_scales R c xs cm st))
     \<and> buckets_ok c (fst (prunemap_scales R c xs cm st))
     \<and> (\<forall>p. cov p (fst (prunemap_scales R c xs cm st)) \<le> cov p cm + lcov p xs)
     \<and> consumes st (snd (prunemap_scales R c xs cm st)) (budget c cm \<union> budgetP c xs)
         (budget c (fst (prunemap_scales R c xs cm st)))"
  using assms
proof (induction xs arbitrary: cm st)
  case Nil
  then show ?case by (simp add: consumes_refl)
next
  case (Cons kv rest)
  obtain k vec where kv: "kv = (k, vec)" by (cases kv)
  from Cons.prems(1) kv have k: "k \<noteq> INT_MIN"
    and vec: "\<forall>f\<in>set vec. Scale (referenceNode f) = k
                   \<and> valid_tree (referenceNode f) \<and> \<not> cached c f"
    and rest: "\<forall>kv\<in>set rest. fst kv \<noteq> INT_MIN
             \<and> (\<forall>f\<in>set (snd kv). Scale (referenceNode f) = fst kv
                   \<and> valid_tree (referenceNode f) \<and> \<not> cached c f)"
    by auto
  note wf = Cons.prems(2) and ok = Cons.prems(3)
  have cv: "cov p cm + cover p vec + lcov p rest \<le> 1" for p
    using Cons.prems(4) [rule_format, of p] by (simp add: kv)
  let ?cm1 = "map_touch k cm"
  let ?old = "map_at k cm"
  obtain new st1 where pf: "prunemap_frames R c vec ?old st = (new, st1)"
    by (cases "prunemap_frames R c vec ?old st")
  define cm2 where "cm2 = (if new = [] then map_erase k ?cm1 else map_set k new ?cm1)"
  have run: "prunemap_scales R c (kv # rest) cm st = prunemap_scales R c rest cm2 st1"
    using k pf by (simp add: kv Let_def map_at_map_touch cm2_def)
  have cvv: "\<forall>p. cover p vec \<le> 1"
  proof
    fix p
    show "cover p vec \<le> 1" using cv [of p] by simp
  qed
  have nc: "\<forall>f\<in>set vec. \<not> cached c f" using vec by simp
  from prunemap_frames_budget [OF nc cvv, of R ?old st] pf obtain es where
    new: "new = ?old @ es"
    and es: "\<forall>e\<in>set es. \<exists>f\<in>set vec. referenceNode e = referenceNode f \<and> queryIndex e = Point c"
    and ces: "\<And>p. cover p es \<le> cover p vec"
    and cons: "consumes st st1 (budgetL c vec) (budgetL c es)"
    by auto
  have at: "map_at k' cm2 = (if k' = k then new else map_at k' cm)" for k'
    by (auto simp: cm2_def map_at_map_set map_at_map_erase map_at_map_touch)
  have wf2: "wf_map cm2"
    using wf by (simp add: cm2_def wf_map_set wf_map_erase wf_map_touch)
  have ok2: "buckets_ok c cm2"
    unfolding buckets_ok_def
  proof (intro allI ballI)
    fix k' g
    assume g: "g \<in> set (map_at k' cm2)"
    then consider "g \<in> set (map_at k' cm)" | "k' = k" "g \<in> set es"
      by (auto simp: at new split: if_splits)
    then show "Scale (referenceNode g) = k' \<and> frame_ok c g"
    proof cases
      case 1
      with ok show ?thesis by (auto simp: buckets_ok_def)
    next
      case 2
      with es obtain f where f: "f \<in> set vec" "referenceNode g = referenceNode f"
        "queryIndex g = Point c" by blast
      with vec 2 show ?thesis by (auto simp: frame_ok_def)
    qed
  qed
  have c2: "cov p cm2 = cov p cm + cover p es" for p
  proof (cases "new = []")
    case True
    then have "es = []" "?old = []" using new by simp_all
    with True cov_map_erase [of p k ?cm1] show ?thesis
      by (simp add: cm2_def map_at_map_touch cov_map_touch)
  next
    case False
    then have e: "cm2 = map_set k new ?cm1" by (simp add: cm2_def)
    have "cov p (map_set k new ?cm1) + cover p (map_at k ?cm1) = cov p ?cm1 + cover p new"
      by (rule cov_map_set)
    then have "cov p cm2 + cover p ?old = cov p cm + cover p new"
      by (simp only: e map_at_map_touch cov_map_touch)
    moreover have "cover p new = cover p ?old + cover p es"
      by (simp only: new cover_append)
    ultimately show ?thesis by simp
  qed
  have cv2: "\<forall>p. cov p cm2 + lcov p rest \<le> 1"
  proof
    fix p
    show "cov p cm2 + lcov p rest \<le> 1" using cv [of p] ces [of p] by (simp add: c2)
  qed
  have fs2: "frameset cm2 = frameset cm \<union> set es"
    by (auto simp: frameset_def at new split: if_splits)
  then have b2: "budget c cm2 = budget c cm \<union> budgetL c es"
    by (auto simp: budget_def budgetL_def)
  have disj: "(budget c cm \<union> budgetP c rest) \<inter> budgetL c vec = {}"
  proof -
    have False if v: "(x, y) \<in> budgetL c vec"
      and o: "(x, y) \<in> budget c cm \<union> budgetP c rest" for x y
    proof -
      from budgetL_points [OF v] have "0 < cover y vec" by simp
      moreover from o have "0 < cov y cm \<or> 0 < lcov y rest"
        using budget_points [of x y c cm] budgetP_points [of x y c rest] by auto
      ultimately show False using cv [of y] by auto
    qed
    then show ?thesis by auto
  qed
  from consumes_frame [OF cons disj]
  have st1: "consumes st st1 (budget c cm \<union> budgetP c (kv # rest))
      (budget c cm2 \<union> budgetP c rest)"
    by (simp add: kv b2 Un_ac)
  from Cons.IH [OF rest wf2 ok2 cv2, of st1]
  have wf': "wf_map (fst (prunemap_scales R c rest cm2 st1))"
    and ok': "buckets_ok c (fst (prunemap_scales R c rest cm2 st1))"
    and cv': "\<And>p. cov p (fst (prunemap_scales R c rest cm2 st1)) \<le> cov p cm2 + lcov p rest"
    and cons': "consumes st1 (snd (prunemap_scales R c rest cm2 st1))
        (budget c cm2 \<union> budgetP c rest) (budget c (fst (prunemap_scales R c rest cm2 st1)))"
    by simp_all
  have "cov p (fst (prunemap_scales R c rest cm2 st1)) \<le> cov p cm + lcov p (kv # rest)" for p
    using cv' [of p] ces [of p] by (simp add: c2 kv)
  with wf' ok' consumes_trans [OF st1 cons'] show ?case
    unfolding run by simp
qed

lemma Inv_Nil [simp]: "Inv c []"
  by (simp add: Inv_def wf_map_def keys_def buckets_ok_def map_at_def)

lemma budget_Nil [simp]: "budget c [] = {}"
  by (simp add: budget_def)

lemma Inv_map_touch: "Inv q m \<Longrightarrow> Inv q (map_touch k m)"
  by (simp add: Inv_def wf_map_touch buckets_ok_def map_at_map_touch cov_map_touch)

lemma PruneMap_budget:
  assumes run: "PruneMap R q c m [] st = (mp, cm, st')"
    and I: "Inv q m" and sub: "points c \<subseteq> points q" and nq: "Point q \<notin> points c"
  shows "Inv q mp \<and> frameset mp = frameset m \<and> Inv c cm
     \<and> consumes st st' (budget c m) (budget c cm)"
proof (cases "m = []")
  case True
  with run have "mp = []" "cm = []" "st' = st" by (simp_all add: PruneMap_def)
  with True show ?thesis by (simp add: consumes_refl)
next
  case False
  let ?xs = "takeWhile (\<lambda>kv. fst kv \<noteq> INT_MIN) (rev m)"
  let ?lb = "map_at INT_MIN m"
  obtain cm1 st1 where ps: "prunemap_scales R c ?xs [] st = (cm1, st1)"
    by (cases "prunemap_scales R c ?xs [] st")
  from run False ps have mp: "mp = map_touch INT_MIN m"
    and cm: "cm = map_set INT_MIN ?lb cm1" and st': "st' = st1"
    by (simp_all add: PruneMap_def prunemap_scales_takeWhile [of R c "rev m"])
  from I have wf: "wf_map m" and ok: "buckets_ok q m" and c1: "\<And>p. cov p m \<le> 1"
    by (auto simp: Inv_def)
  have not_cached: "\<not> cached c f" if "frame_ok q f" for f
  proof
    assume "cached c f"
    then have qi: "queryIndex f = Point c" by (simp add: cached_def)
    have "Point c \<in> points q" using sub Point_in_points [of c] by blast
    with that qi have "Point c = Point q" by (simp add: frame_ok_def)
    with nq show False by (metis Point_in_points)
  qed
  have inm: "kv \<in> set m \<and> fst kv \<noteq> INT_MIN \<and> snd kv = map_at (fst kv) m"
    if "kv \<in> set ?xs" for kv
  proof -
    from set_takeWhileD [OF that] have a: "kv \<in> set m" "fst kv \<noteq> INT_MIN" by simp_all
    then have "(fst kv, snd kv) \<in> set m" by simp
    from wf_map_bucket [OF wf this] a show ?thesis by simp
  qed
  have a1: "\<forall>kv\<in>set ?xs. fst kv \<noteq> INT_MIN
             \<and> (\<forall>f\<in>set (snd kv). Scale (referenceNode f) = fst kv
                   \<and> valid_tree (referenceNode f) \<and> \<not> cached c f)"
  proof (intro ballI conjI)
    fix kv
    assume kv: "kv \<in> set ?xs"
    from inm [OF kv] show "fst kv \<noteq> INT_MIN" by simp
  next
    fix kv f
    assume kv: "kv \<in> set ?xs" and f: "f \<in> set (snd kv)"
    from inm [OF kv] f have "f \<in> set (map_at (fst kv) m)" by simp
    with ok have s: "Scale (referenceNode f) = fst kv" and fo: "frame_ok q f"
      by (auto simp: buckets_ok_def)
    from s show "Scale (referenceNode f) = fst kv" .
    from fo show "valid_tree (referenceNode f)" by (simp add: frame_ok_def)
    from not_cached [OF fo] show "\<not> cached c f" .
  qed
  have lc: "lcov p ?xs + cover p ?lb \<le> 1" for p
    using lcov_takeWhile [OF wf, of p INT_MIN] c1 [of p] by simp
  have a4: "\<forall>p. cov p [] + lcov p ?xs \<le> 1"
  proof
    fix p
    show "cov p [] + lcov p ?xs \<le> 1" using lc [of p] by simp
  qed
  have wfN: "wf_map []" by (simp add: wf_map_def keys_def)
  have okN: "buckets_ok c []" by (simp add: buckets_ok_def map_at_def)
  from prunemap_scales_budget [OF a1 wfN okN a4, of R st] ps
  have wf1: "wf_map cm1" and ok1: "buckets_ok c cm1"
    and cv1: "\<And>p. cov p cm1 \<le> lcov p ?xs"
    and cons: "consumes st st1 (budgetP c ?xs) (budget c cm1)"
    by simp_all
  have okc: "buckets_ok c cm"
    unfolding buckets_ok_def
  proof (intro allI ballI)
    fix k g
    assume g: "g \<in> set (map_at k cm)"
    then consider "g \<in> set (map_at k cm1)" | "k = INT_MIN" "g \<in> set ?lb"
      by (auto simp: cm map_at_map_set split: if_splits)
    then show "Scale (referenceNode g) = k \<and> frame_ok c g"
    proof cases
      case 1
      with ok1 show ?thesis by (auto simp: buckets_ok_def)
    next
      case 2
      with ok have s: "Scale (referenceNode g) = k" and fo: "frame_ok q g"
        by (auto simp: buckets_ok_def)
      have "queryIndex g \<notin> points c"
      proof
        assume a: "queryIndex g \<in> points c"
        with sub fo have "queryIndex g = Point q" by (auto simp: frame_ok_def)
        with a nq show False by simp
      qed
      with s fo show ?thesis by (simp add: frame_ok_def)
    qed
  qed
  have cvc: "cov p cm \<le> 1" for p
    using cov_map_set [of p INT_MIN ?lb cm1] cv1 [of p] lc [of p] by (simp add: cm)
  have Ic: "Inv c cm"
    using wf_map_set [OF wf1] okc cvc by (simp add: Inv_def cm)
  have disj: "budgetL c ?lb \<inter> budgetP c ?xs = {}"
  proof -
    have False if a: "(x, y) \<in> budgetL c ?lb" and b: "(x, y) \<in> budgetP c ?xs" for x y
      using budgetL_points [OF a] budgetP_points [OF b] lc [of y] by simp
    then show ?thesis by auto
  qed
  from consumes_frame [OF cons disj]
  have c2: "consumes st st1 (budgetP c ?xs \<union> budgetL c ?lb) (budget c cm1 \<union> budgetL c ?lb)" .
  have pre: "budgetP c ?xs \<union> budgetL c ?lb \<subseteq> budget c m"
  proof -
    have "budgetL c (snd kv) \<subseteq> budget c m" if "kv \<in> set ?xs" for kv
      using inm [OF that] by (auto simp: budget_def budgetL_def frameset_def)
    moreover have "budgetL c ?lb \<subseteq> budget c m"
      by (auto simp: budget_def budgetL_def frameset_def)
    ultimately show ?thesis by (auto simp: budgetP_def)
  qed
  have post: "budget c cm \<subseteq> budget c cm1 \<union> budgetL c ?lb"
    by (auto simp: budget_def budgetL_def frameset_def cm map_at_map_set split: if_splits)
  from consumes_weaken [OF c2 pre post] have "consumes st st' (budget c m) (budget c cm)"
    by (simp add: st')
  with Inv_map_touch [OF I] Ic show ?thesis by (simp add: mp)
qed

subsection \<open>The budget in the traversal\<close>

lemma budget_cong: "frameset m' = frameset m \<Longrightarrow> budget c m' = budget c m"
  by (simp add: budget_def)

lemma Inv_self_child:
  assumes "valid_tree q" "children q = c0 # cs" "Inv q m"
  shows "Inv c0 m"
proof -
  have P0: "Point c0 = Point q" by (rule valid_self [OF assms(1,2)])
  have sub: "points c0 \<subseteq> points q" using points_children [of c0 q] assms(2) by simp
  have "frame_ok c0 f" if "frame_ok q f" for f
    using that sub P0 by (auto simp: frame_ok_def)
  with assms(3) show ?thesis by (auto simp: Inv_def buckets_ok_def)
qed

lemma budget_self_child:
  assumes "valid_tree q" "children q = c0 # cs"
  shows "budget c0 m \<subseteq> budget q m"
proof -
  have P0: "Point c0 = Point q" by (rule valid_self [OF assms])
  have sub: "points c0 \<subseteq> points q" using points_children [of c0 q] assms(2) by simp
  have "allowed c0 f \<subseteq> allowed q f" for f
    using sub P0 by (auto simp: allowed_def cached_def)
  then show ?thesis unfolding budget_def by blast
qed

lemma budget_nonself_child:
  assumes "points c \<subseteq> points q" "Point q \<notin> points c"
  shows "budget c m \<subseteq> budget q m"
proof -
  have "allowed c f \<subseteq> allowed q f" for f
    using assms by (auto simp: allowed_def)
  then show ?thesis unfolding budget_def by blast
qed

lemma budget_disjoint:
  assumes "points c \<inter> points d = {}"
  shows "budget c m \<inter> budget d m' = {}"
proof -
  have False if "(x, y) \<in> budget c m" "(x, y) \<in> budget d m'" for x y
    using budget_points [OF that(1)] budget_points [OF that(2)] assms by auto
  then show ?thesis by auto
qed

lemma Traverse_nonself_budget:
  assumes "\<And>c m st st'. c \<in> set cs \<Longrightarrow> Traverse_map R c m st = Some (Inr st') \<Longrightarrow> Inv c m
             \<Longrightarrow> consumes st st' (budget c m) {}"
    and "Traverse_nonself R q cs m st = Some (Inr (m', st'))"
    and "Inv q m"
    and "\<forall>c\<in>set cs. points c \<subseteq> points q \<and> Point q \<notin> points c"
    and "disjoint_points cs"
  shows "Inv q m' \<and> frameset m' = frameset m
     \<and> consumes st st' (\<Union>c\<in>set cs. budget c m) {}"
  using assms
proof (induction cs arbitrary: m st)
  case Nil
  then show ?case by (simp add: consumes_refl)
next
  case (Cons c rest)
  note TM = Cons.prems(1) and run = Cons.prems(2) and I = Cons.prems(3)
  from Cons.prems(4) have c: "points c \<subseteq> points q" "Point q \<notin> points c"
    and rest: "\<forall>c\<in>set rest. points c \<subseteq> points q \<and> Point q \<notin> points c" by simp_all
  from Cons.prems(5) have dc: "\<forall>d\<in>set rest. points c \<inter> points d = {}"
    and dr: "disjoint_points rest" by simp_all
  obtain mp cm st1 where pm: "PruneMap R q c m [] st = (mp, cm, st1)"
    by (cases "PruneMap R q c m [] st") auto
  from run pm obtain st2 where tm: "Traverse_map R c cm st1 = Some (Inr st2)"
    and tn: "Traverse_nonself R q rest mp st2 = Some (Inr (m', st'))"
    by (auto split: option.splits sum.splits)
  from PruneMap_budget [OF pm I c]
  have Ip: "Inv q mp" and fp: "frameset mp = frameset m" and Ic: "Inv c cm"
    and c1: "consumes st st1 (budget c m) (budget c cm)" by simp_all
  have c2: "consumes st1 st2 (budget c cm) {}"
    by (rule TM [OF _ tm Ic]) simp
  let ?U = "\<Union>d\<in>set rest. budget d m"
  have disj: "?U \<inter> budget c m = {}"
    using dc budget_disjoint [of c _ m m] by blast
  from consumes_frame [OF consumes_trans [OF c1 c2] disj]
  have c3: "consumes st st2 (budget c m \<union> ?U) ?U" by simp
  have TM': "\<And>c m st st'. c \<in> set rest \<Longrightarrow> Traverse_map R c m st = Some (Inr st')
      \<Longrightarrow> Inv c m \<Longrightarrow> consumes st st' (budget c m) {}"
    using TM by simp
  from Cons.IH [OF TM' tn Ip rest dr]
  have I': "Inv q m'" and f': "frameset m' = frameset mp"
    and c4: "consumes st2 st' (\<Union>d\<in>set rest. budget d mp) {}" by simp_all
  have "(\<Union>d\<in>set rest. budget d mp) = ?U"
    using budget_cong [OF fp] by simp
  with c4 have "consumes st2 st' ?U {}" by simp
  from consumes_trans [OF c3 this] I' f' fp show ?case by simp
qed

lemma begin_pair_in_set: "begin_pair m = Some (k, v) \<Longrightarrow> (k, v) \<in> set m"
  by (auto simp: begin_pair_def split: list.splits)

lemma Traverse_map_budget:
  "valid_tree q \<Longrightarrow> Inv q m \<Longrightarrow> Traverse_map R q m st = Some (Inr st')
     \<Longrightarrow> consumes st st' (budget q m) {}"
proof (induction q arbitrary: m st st')
  case (CoverTree p s cs)
  define q where "q = CoverTree p s cs"
  note v = CoverTree.prems(1) [folded q_def] and I = CoverTree.prems(2) [folded q_def]
    and run = CoverTree.prems(3) [folded q_def]
  have ch: "children q = cs" by (simp add: q_def)
  have IH: "\<And>c m st st'. c \<in> set cs \<Longrightarrow> Traverse_map R c m st = Some (Inr st') \<Longrightarrow> Inv c m
      \<Longrightarrow> consumes st st' (budget c m) {}"
    using CoverTree.IH valid_children [OF v] ch by blast
  note body = run [unfolded Traverse_map.simps [of R q m st]]
  have "consumes st st' (budget q m) {}"
  proof (cases "m = []")
    case True
    with body show ?thesis by (simp add: consumes_refl)
  next
    case mF: False
    from body mF obtain m1 st1 where rr: "ReferenceRecursion R q m st = Some (Inr (m1, st1))"
      by (auto split: option.splits sum.splits)
    from ReferenceRecursion_budget [OF rr I]
    have I1: "Inv q m1" and c1: "consumes st st1 (budget q m) (budget q m1)" by simp_all
    have fin: "consumes st1 st' (budget q m1) {}"
    proof (cases "Scale q = INT_MIN")
      case True
      from body mF rr True obtain k pv where bp: "begin_pair m1 = Some (k, pv)"
        and k: "k = INT_MIN" and st': "st' = leaf_frames R q pv st1"
        by (auto split: option.splits if_splits)
      from I1 have wf1: "wf_map m1" and cv1: "\<And>p. cov p m1 \<le> 1" by (auto simp: Inv_def)
      from wf_map_bucket [OF wf1 begin_pair_in_set [OF bp]] have pv: "map_at k m1 = pv" .
      have "\<forall>p. cover p pv \<le> 1"
        using cover_le_cov [of _ k m1] cv1 pv le_trans by metis
      from leaf_frames_budget [OF this, of st1 R q]
      have "consumes st1 st' (budgetL q pv) {}" by (simp add: st')
      moreover have "budgetL q pv \<subseteq> budget q m1"
        using pv by (auto simp: budget_def budgetL_def frameset_def)
      ultimately show ?thesis by (rule consumes_weaken) simp
    next
      case sF: False
      from body mF rr sF obtain tk vec where rb: "rbegin m1 = Some (tk, vec)"
        by (auto split: option.splits)
      show ?thesis
      proof (cases "tk \<le> Scale q")
        case False
        with body mF rr sF rb have "st' = st1" by simp
        then show ?thesis by (simp add: consumes_refl)
      next
        case True
        from body mF rr sF rb True obtain m2 st2 where
          tn: "Traverse_nonself R q (tl cs) m1 st1 = Some (Inr (m2, st2))"
          by (auto simp: ch split: option.splits sum.splits)
        from body mF rr sF rb True tn obtain c0 cs' where cs: "cs = c0 # cs'"
          by (cases cs) (auto simp: ch)
        from body mF rr sF rb True tn cs obtain m3 st3 where
          ps: "PruneMapForSelfChild R c0 m2 st2 = Inr (m3, st3)"
          and tm: "Traverse_map R c0 m3 st3 = Some (Inr st')"
          by (auto simp: ch split: sum.splits)
        have chq: "children q = c0 # cs'" using ch cs by simp
        have d: "disjoint_points (c0 # cs')" using valid_disjoint [OF v] chq by simp
        have nonself: "\<forall>c\<in>set cs'. points c \<subseteq> points q \<and> Point q \<notin> points c"
        proof
          fix c
          assume c: "c \<in> set cs'"
          then have "c \<in> set (children q)" using chq by simp
          from points_children [OF this] valid_nonself(1) [OF v chq c]
          show "points c \<subseteq> points q \<and> Point q \<notin> points c" by simp
        qed
        have TM: "\<And>c m st st'. c \<in> set cs' \<Longrightarrow> Traverse_map R c m st = Some (Inr st')
            \<Longrightarrow> Inv c m \<Longrightarrow> consumes st st' (budget c m) {}"
          using IH cs by simp
        from tn cs have tn': "Traverse_nonself R q cs' m1 st1 = Some (Inr (m2, st2))" by simp
        from d have dr: "disjoint_points cs'" by simp
        from Traverse_nonself_budget [OF TM tn' I1 nonself dr]
        have I2: "Inv q m2" and f2: "frameset m2 = frameset m1"
          and c2: "consumes st1 st2 (\<Union>c\<in>set cs'. budget c m1) {}" by simp_all
        let ?U = "\<Union>c\<in>set cs'. budget c m1"
        have disj: "budget c0 m1 \<inter> ?U = {}"
          using d budget_disjoint [of c0 _ m1 m1] by auto
        from consumes_frame [OF c2 disj]
        have c3: "consumes st1 st2 (?U \<union> budget c0 m1) (budget c0 m2)"
          by (simp add: budget_cong [OF f2])
        from PruneMapForSelfChild_budget [OF ps Inv_self_child [OF v chq I2]]
        have I3: "Inv c0 m3" and c4: "consumes st2 st3 (budget c0 m2) (budget c0 m3)"
          by simp_all
        have c5: "consumes st3 st' (budget c0 m3) {}"
          by (rule IH [OF _ tm I3]) (simp add: cs)
        have sub: "?U \<union> budget c0 m1 \<subseteq> budget q m1"
          using budget_self_child [OF v chq, of m1] nonself budget_nonself_child [of _ q m1]
          by blast
        from consumes_weaken [OF consumes_trans [OF c3 consumes_trans [OF c4 c5]] sub]
        show ?thesis by simp
      qed
    qed
    from consumes_trans [OF c1 fin] show ?thesis .
  qed
  then show ?case by (simp add: q_def)
qed

lemma Traverse_budget:
  assumes "valid_tree q" "valid_tree r" "Traverse R q r st = Some (Inr st')"
  shows "consumes st st' (points q \<times> points r) {}"
proof -
  obtain bc st1 where b: "callBaseCase R (Point q) (Point r) st = (bc, st1)"
    by (cases "callBaseCase R (Point q) (Point r) st")
  define f0 where "f0 = \<lparr>referenceNode = r, score = 0, referenceIndex = Point r,
                queryIndex = Point q, baseCase = bc\<rparr>"
  define m0 where "m0 = push_all [f0] []"
  have m0: "m0 = map_push (Scale r) f0 []" by (simp add: m0_def f0_def)
  from assms(3) b have run: "Traverse_map R q m0 st1 = Some (Inr st')"
    by (simp add: Traverse_def m0 f0_def)
  have at: "map_at k m0 = (if k = Scale r then [f0] else [])" for k
  proof -
    have e: "map_at k ([] :: refmap) = []" by (simp add: map_at_def)
    show ?thesis unfolding m0_def map_at_push_all e by (simp add: f0_def)
  qed
  have "wf_map m0" unfolding m0_def by (rule wf_push_all) (simp add: wf_map_def keys_def)
  moreover have "buckets_ok q m0"
    using assms(2) by (auto simp: buckets_ok_def at f0_def frame_ok_def split: if_splits)
  moreover have "cov p m0 \<le> 1" for p
    unfolding m0_def cov_push_all by simp
  ultimately have I: "Inv q m0" by (simp add: Inv_def)
  have "frameset m0 = {f0}" unfolding m0_def frameset_push_all by simp
  then have bud: "budget q m0 = points q \<times> points r - {(Point q, Point r)}"
    by (simp add: budget_def allowed_def cached_def f0_def)
  have "consumes st st1 (points q \<times> points r) (points q \<times> points r - {(Point q, Point r)})"
    by (rule consumes_callBaseCase [OF b]) simp
  from consumes_trans [OF this] Traverse_map_budget [OF assms(1) I run]
  show ?thesis by (simp add: bud)
qed

lemma Traverse_BaseCase_distinct:
  assumes "valid_tree q" "valid_tree r" "Traverse R q r st = Some (Inr st')"
  shows "\<exists>N. calls st' = calls st @ N \<and> distinct (bc_pairs N)
           \<and> set (bc_pairs N) \<subseteq> points q \<times> points r"
  using Traverse_budget [OF assms] by (auto simp: consumes_def)

section \<open>The claims\<close>

subsection \<open>C1: the three modes of Search\<close>

text \<open>
  C1 says that the naive, the single-tree and the dual-tree mode of \<open>Search\<close> give the
  same results for every point set and every policy. The code breaks it: for the query
  set \<open>{100}\<close>, the reference set \<open>{0, 1}\<close> and the range search up to distance 5, the
  policy prunes the pair of roots, \<open>ReferenceRecursion\<close> erases the only bucket of the
  frontier and then reads \<open>rbegin()\<close> of the empty map, whereas the naive mode returns
  the empty result after two base cases. This holds whatever the single-tree traverser
  \<open>single\<close> and the tree constructor \<open>build\<close> are.
\<close>

theorem Search_dual_fails_where_naive_returns:
  "Search (RangeSearch_trees (Ptr pair_tree) (Ptr (leaf 0)) [[0], [1]] [[100]] False ())
      single (range_rules [[100]] [[0], [1]] 5 2) []
    = Some (Inl EmptyMapDeref)
   \<and> (case RangeSearch_ctor build [[0], [1]] [[100]] True False 1 () of
        Inl e \<Rightarrow> False
      | Inr rs \<Rightarrow>
          Search rs single (range_rules [[100]] [[0], [1]] 5 2) []
            = Some (Inr \<lparr>rstate = [], numPrunes = 0,
                         calls = [BaseCaseCall 0 0, BaseCaseCall 0 1]\<rparr>))"
  by (simp add: eval_defs Search_def RangeSearch_trees_def RangeSearch_ctor_def naive_search_def
      n_cols_def upt_rec)

subsection \<open>C2: the scales left by ReferenceRecursion\<close>

text \<open>
  C2, as amended: when \<open>ReferenceRecursion\<close> returns on a well-formed frontier, the
  frontier is not empty, it is still well-formed, and every scale key present is at most
  the scale of the query node.
\<close>

theorem ReferenceRecursion_keys_le:
  assumes "ReferenceRecursion R queryNode referenceMap st = Some (Inr (m', st'))"
    and "wf_map referenceMap"
  shows "m' \<noteq> [] \<and> wf_map m' \<and> (\<forall>k\<in>set (keys m'). k \<le> Scale queryNode)"
  using ReferenceRecursion_inv [OF assms] by blast

text \<open>
  The theorem at a frontier holding the root of \<open>pair_tree\<close> at scale 1 and a query
  leaf: the root is expanded and its two children end in the leaf bucket.
\<close>

theorem ReferenceRecursion_keys_le_witness:
  "ReferenceRecursion recording (leaf 0) [(1, [frame_of pair_tree 0])] (start ())
     = Some (Inr ([(INT_MIN,
                    [\<lparr>referenceNode = leaf 0, score = 1, referenceIndex = 0, queryIndex = 0,
                      baseCase = 1\<rparr>,
                     \<lparr>referenceNode = leaf 1, score = 1, referenceIndex = 1, queryIndex = 0,
                      baseCase = 1\<rparr>])],
                  \<lparr>rstate = (), numPrunes = 0,
                   calls = [RescoreCall (leaf 0) pair_tree 0, ScoreCall (leaf 0) pair_tree 1,
                            ScoreCall (leaf 0) (leaf 0) 1, BaseCaseCall 0 1,
                            ScoreCall (leaf 0) (leaf 1) 1]\<rparr>))
   \<and> wf_map [(1, [frame_of pair_tree 0])]
   \<and> INT_MIN \<le> Scale (leaf 0)"
proof -
  have run: "ReferenceRecursion recording (leaf 0) [(1, [frame_of pair_tree 0])] (start ())
     = Some (Inr ([(INT_MIN,
                    [\<lparr>referenceNode = leaf 0, score = 1, referenceIndex = 0, queryIndex = 0,
                      baseCase = 1\<rparr>,
                     \<lparr>referenceNode = leaf 1, score = 1, referenceIndex = 1, queryIndex = 0,
                      baseCase = 1\<rparr>])],
                  \<lparr>rstate = (), numPrunes = 0,
                   calls = [RescoreCall (leaf 0) pair_tree 0, ScoreCall (leaf 0) pair_tree 1,
                            ScoreCall (leaf 0) (leaf 0) 1, BaseCaseCall 0 1,
                            ScoreCall (leaf 0) (leaf 1) 1]\<rparr>))"
    by (simp add: eval_defs)
  have wf: "wf_map [(1, [frame_of pair_tree 0])]"
    by (simp add: wf_map_def keys_def)
  from ReferenceRecursion_keys_le [OF run wf]
  have "INT_MIN \<le> Scale (leaf 0)" by (simp add: keys_def)
  with run wf show ?thesis by blast
qed

text \<open>
  C2 as stated (every key is the leaf sentinel or at least the scale of the query node)
  fails: for a query node of scale 5 and a frontier whose only bucket has scale 3, the
  loop does not run and the key 3 stays.
\<close>

theorem ReferenceRecursion_keys_ge_counterexample:
  "ReferenceRecursion recording (CoverTree 0 5 [leaf 0])
      [(3, [frame_of (CoverTree 1 3 [leaf 1]) 0])] (start ())
    = Some (Inr ([(3, [frame_of (CoverTree 1 3 [leaf 1]) 0])], start ()))
   \<and> keys [(3, [frame_of (CoverTree 1 3 [leaf 1]) 0])] = [3]
   \<and> (3::int) \<noteq> INT_MIN \<and> \<not> Scale (CoverTree 0 5 [leaf 0]) \<le> 3"
  by (simp add: eval_defs)

subsection \<open>C3: base cases and prune credits\<close>




subsection \<open>C4: base cases at leaf scope\<close>

text \<open>
  C4, as amended: in one run of \<open>Traverse\<close> that returns, on a query tree and a reference
  tree of the shape of a cover tree (\<open>valid_tree\<close>: child 0 of a node has the node's
  point, the children of a node hold different points, no child has a greater scale than
  its parent), \<open>BaseCase\<close> is called at most once for each pair of a query point and a
  reference point, and only for pairs of points of the two trees. In the leaf phase the
  frames of the leaf bucket are handled in order: a cached frame causes no call and one
  prune; any other frame causes one \<open>Rescore\<close> call and then one prune if \<open>Rescore\<close>
  returned the prune sentinel, and otherwise one \<open>BaseCase\<close> call for the query point and
  the frame's reference point (\<open>leaf_verdicts\<close> holds what \<open>Rescore\<close> returned).
\<close>

theorem BaseCase_once_per_run:
  "(valid_tree q \<longrightarrow> valid_tree r \<longrightarrow> Traverse R q r st = Some (Inr st') \<longrightarrow>
      (\<exists>N. calls st' = calls st @ N \<and> distinct (bc_pairs N)
          \<and> set (bc_pairs N) \<subseteq> points q \<times> points r))
   \<and> leaf_frames Rl ql fs stl =
       stl\<lparr>rstate := snd (leaf_verdicts Rl ql fs (rstate stl)),
           numPrunes := numPrunes stl
             + length (filter (\<lambda>(f, b). leaf_pruned ql f b)
                         (zip fs (fst (leaf_verdicts Rl ql fs (rstate stl))))),
           calls := calls stl
             @ concat (map2 (leaf_calls ql) fs (fst (leaf_verdicts Rl ql fs (rstate stl))))\<rparr>"
proof (intro conjI impI)
  assume "valid_tree q" "valid_tree r" "Traverse R q r st = Some (Inr st')"
  then show "\<exists>N. calls st' = calls st @ N \<and> distinct (bc_pairs N)
          \<and> set (bc_pairs N) \<subseteq> points q \<times> points r"
    by (rule Traverse_BaseCase_distinct)
next
  show "leaf_frames Rl ql fs stl =
       stl\<lparr>rstate := snd (leaf_verdicts Rl ql fs (rstate stl)),
           numPrunes := numPrunes stl
             + length (filter (\<lambda>(f, b). leaf_pruned ql f b)
                         (zip fs (fst (leaf_verdicts Rl ql fs (rstate stl))))),
           calls := calls stl
             @ concat (map2 (leaf_calls ql) fs (fst (leaf_verdicts Rl ql fs (rstate stl))))\<rparr>"
    by (rule leaf_frames_exact)
qed

text \<open>
  The theorem at two trees of four points and a policy that never prunes: the run returns
  and calls \<open>BaseCase\<close> for sixteen different pairs; and at a leaf bucket of a cached
  frame, a frame that \<open>Rescore\<close> prunes and a frame that gets its base case.
\<close>

theorem BaseCase_once_per_run_witness:
  "valid_tree quad_tree
   \<and> (\<exists>st'. Traverse recording quad_tree quad_tree (start ()) = Some (Inr st')
         \<and> bc_pairs (calls st')
             = [(0, 0), (2, 0), (2, 2), (3, 0), (3, 2), (3, 1), (3, 3), (2, 1), (2, 3),
                (0, 2), (1, 0), (1, 2), (1, 1), (1, 3), (0, 1), (0, 3)]
         \<and> (\<exists>N. calls st' = calls (start ()) @ N \<and> distinct (bc_pairs N)
                \<and> set (bc_pairs N) \<subseteq> points quad_tree \<times> points quad_tree))
   \<and> leaf_frames (prune_point 1) (leaf 0)
        [frame_of (leaf 0) 0, frame_of (leaf 1) 3, frame_of (leaf 2) 3] (start ())
      = \<lparr>rstate = (), numPrunes = 2,
          calls = [RescoreCall (leaf 0) (leaf 1) 0, RescoreCall (leaf 0) (leaf 2) 0,
                   BaseCaseCall 0 2]\<rparr>"
proof -
  have v: "valid_tree quad_tree"
    by (simp add: quad_tree_def leaf_def INT_MIN_def)
  have "\<exists>st'. Traverse recording quad_tree quad_tree (start ()) = Some (Inr st')
         \<and> bc_pairs (calls st')
             = [(0, 0), (2, 0), (2, 2), (3, 0), (3, 2), (3, 1), (3, 3), (2, 1), (2, 3),
                (0, 2), (1, 0), (1, 2), (1, 1), (1, 3), (0, 1), (0, 3)]"
    by (simp add: eval_defs quad_tree_def)
  then obtain st' where run: "Traverse recording quad_tree quad_tree (start ()) = Some (Inr st')"
    and pairs: "bc_pairs (calls st')
             = [(0, 0), (2, 0), (2, 2), (3, 0), (3, 2), (3, 1), (3, 3), (2, 1), (2, 3),
                (0, 2), (1, 0), (1, 2), (1, 1), (1, 3), (0, 1), (0, 3)]"
    by blast
  note inst = BaseCase_once_per_run [where q = quad_tree and r = quad_tree and R = recording
      and st = "start ()" and st' = st' and Rl = "prune_point 1" and ql = "leaf 0"
      and fs = "[frame_of (leaf 0) 0, frame_of (leaf 1) 3, frame_of (leaf 2) 3]"
      and stl = "start ()"]
  from inst v run have once: "\<exists>N. calls st' = calls (start ()) @ N \<and> distinct (bc_pairs N)
                \<and> set (bc_pairs N) \<subseteq> points quad_tree \<times> points quad_tree"
    by blast
  have leaf: "leaf_frames (prune_point 1) (leaf 0)
        [frame_of (leaf 0) 0, frame_of (leaf 1) 3, frame_of (leaf 2) 3] (start ())
      = \<lparr>rstate = (), numPrunes = 2,
          calls = [RescoreCall (leaf 0) (leaf 1) 0, RescoreCall (leaf 0) (leaf 2) 0,
                   BaseCaseCall 0 2]\<rparr>"
    using inst [THEN conjunct2]
    by (simp add: eval_defs cached_def leaf_calls_def leaf_pruned_def)
  from v run pairs once leaf show ?thesis by blast
qed

text \<open>
  C4 as stated (at most one \<open>BaseCase\<close> per leaf pair, also over two runs) fails: each
  run of \<open>Traverse\<close> starts with the base case of the two roots, so two runs on two
  single leaves call \<open>BaseCase 0 0\<close> twice.
\<close>

theorem BaseCase_twice_counterexample:
  "Traverse recording (leaf 0) (leaf 0) (start ())
     = Some (Inr \<lparr>rstate = (), numPrunes = 1, calls = [BaseCaseCall 0 0]\<rparr>)
   \<and> Traverse recording (leaf 0) (leaf 0) \<lparr>rstate = (), numPrunes = 1, calls = [BaseCaseCall 0 0]\<rparr>
     = Some (Inr \<lparr>rstate = (), numPrunes = 2, calls = [BaseCaseCall 0 0, BaseCaseCall 0 0]\<rparr>)
   \<and> count_list [BaseCaseCall 0 0, BaseCaseCall 0 0] (BaseCaseCall 0 0) = 2"
  by (simp add: eval_defs)

subsection \<open>C5: PruneMap\<close>

text \<open>
  C5, as amended: \<open>PruneMap\<close> with an empty \<open>childMap\<close> leaves every bucket of the
  parent's frontier as it is, and adds to a non-empty frontier the key of the leaf
  sentinel if it is missing (the frontier is unchanged if the key is there); the child's
  frontier of a non-empty parent holds the parent's leaf bucket, it has no empty bucket at
  another scale, and its keys are among the parent's and the leaf sentinel.
\<close>

theorem PruneMap_frame:
  assumes "PruneMap R queryNode candidateQueryNode referenceMap [] st = (m', childMap, st')"
  shows "(\<forall>k. map_at k m' = map_at k referenceMap)
       \<and> set (keys m') = (if referenceMap = [] then {} else insert INT_MIN (set (keys referenceMap)))
       \<and> (INT_MIN \<in> set (keys referenceMap) \<longrightarrow> m' = referenceMap)
       \<and> (referenceMap \<noteq> [] \<longrightarrow> map_of childMap INT_MIN = Some (map_at INT_MIN referenceMap))
       \<and> no_empty_bucket childMap
       \<and> set (keys childMap) \<subseteq> insert INT_MIN (set (keys referenceMap))"
proof (cases "referenceMap = []")
  case True
  with assms show ?thesis
    by (simp add: PruneMap_def no_empty_bucket_def keys_def)
next
  case False
  obtain cm st1 where
    s: "prunemap_scales R candidateQueryNode (rev referenceMap) [] st = (cm, st1)"
    by (cases "prunemap_scales R candidateQueryNode (rev referenceMap) [] st")
  from assms False s have m': "m' = map_touch INT_MIN referenceMap"
    and cm': "childMap = map_set INT_MIN (map_at INT_MIN referenceMap) cm"
    by (simp_all add: PruneMap_def)
  have "no_empty_bucket []" by (simp add: no_empty_bucket_def)
  moreover have "set (keys ([] :: refmap)) \<subseteq> set (keys referenceMap)" by (simp add: keys_def)
  moreover have "set (keys (rev referenceMap)) \<subseteq> set (keys referenceMap)" by (simp add: keys_def)
  ultimately have inv: "no_empty_bucket cm" "set (keys cm) \<subseteq> set (keys referenceMap)"
    using prunemap_scales_inv [of "[]" "set (keys referenceMap)" "rev referenceMap"
        R candidateQueryNode st] s by simp_all
  have "no_empty_bucket childMap"
    using inv(1) by (simp add: cm' no_empty_bucket_def map_of_map_set)
  moreover have "set (keys childMap) \<subseteq> insert INT_MIN (set (keys referenceMap))"
    using inv(2) by (auto simp: cm' keys_map_set)
  moreover have "map_of childMap INT_MIN = Some (map_at INT_MIN referenceMap)"
    by (simp add: cm' map_of_map_set)
  ultimately show ?thesis
    using False by (simp add: m' map_at_map_touch keys_map_touch map_touch_id)
qed

text \<open>
  The theorem at a frontier with a leaf bucket and two scales, one of whose frames is
  pruned for the child: the parent is unchanged and the child has no bucket at scale 2.
\<close>

theorem PruneMap_frame_witness:
  "PruneMap (prune_point 7) pair_tree (leaf 1)
       [(INT_MIN, [frame_of (leaf 5) 0]), (1, [frame_of (CoverTree 3 1 [leaf 3]) 0]),
        (2, [frame_of (CoverTree 7 2 [leaf 7]) 0])]
       [] (start ())
     = ([(INT_MIN, [frame_of (leaf 5) 0]), (1, [frame_of (CoverTree 3 1 [leaf 3]) 0]),
         (2, [frame_of (CoverTree 7 2 [leaf 7]) 0])],
        [(INT_MIN, [frame_of (leaf 5) 0]),
         (1, [\<lparr>referenceNode = CoverTree 3 1 [leaf 3], score = 1, referenceIndex = 3,
               queryIndex = 1, baseCase = 1\<rparr>])],
        \<lparr>rstate = (), numPrunes = 1,
         calls = [RescoreCall (leaf 1) (CoverTree 7 2 [leaf 7]) 0,
                  RescoreCall (leaf 1) (CoverTree 3 1 [leaf 3]) 0,
                  BaseCaseCall 1 3,
                  ScoreCall (leaf 1) (CoverTree 3 1 [leaf 3]) 1]\<rparr>)
   \<and> INT_MIN \<in> set (keys [(INT_MIN, [frame_of (leaf 5) 0]),
         (1, [frame_of (CoverTree 3 1 [leaf 3]) 0]), (2, [frame_of (CoverTree 7 2 [leaf 7]) 0])])
   \<and> no_empty_bucket [(INT_MIN, [frame_of (leaf 5) 0]),
         (1, [\<lparr>referenceNode = CoverTree 3 1 [leaf 3], score = 1, referenceIndex = 3,
               queryIndex = 1, baseCase = 1\<rparr>])]"
proof -
  have run: "PruneMap (prune_point 7) pair_tree (leaf 1)
       [(INT_MIN, [frame_of (leaf 5) 0]), (1, [frame_of (CoverTree 3 1 [leaf 3]) 0]),
        (2, [frame_of (CoverTree 7 2 [leaf 7]) 0])]
       [] (start ())
     = ([(INT_MIN, [frame_of (leaf 5) 0]), (1, [frame_of (CoverTree 3 1 [leaf 3]) 0]),
         (2, [frame_of (CoverTree 7 2 [leaf 7]) 0])],
        [(INT_MIN, [frame_of (leaf 5) 0]),
         (1, [\<lparr>referenceNode = CoverTree 3 1 [leaf 3], score = 1, referenceIndex = 3,
               queryIndex = 1, baseCase = 1\<rparr>])],
        \<lparr>rstate = (), numPrunes = 1,
         calls = [RescoreCall (leaf 1) (CoverTree 7 2 [leaf 7]) 0,
                  RescoreCall (leaf 1) (CoverTree 3 1 [leaf 3]) 0,
                  BaseCaseCall 1 3,
                  ScoreCall (leaf 1) (CoverTree 3 1 [leaf 3]) 1]\<rparr>)"
    by (simp add: eval_defs)
  have key: "INT_MIN \<in> set (keys [(INT_MIN, [frame_of (leaf 5) 0]),
         (1, [frame_of (CoverTree 3 1 [leaf 3]) 0]), (2, [frame_of (CoverTree 7 2 [leaf 7]) 0])])"
    by (simp add: keys_def)
  from PruneMap_frame [OF run] run key show ?thesis by blast
qed

text \<open>
  C5 as stated (the parent's frontier is unchanged) fails for a frontier without a leaf
  bucket: \<open>referenceMap[INT_MIN]\<close> inserts an empty one.
\<close>

theorem PruneMap_changes_parent_counterexample:
  "fst (PruneMap recording pair_tree (leaf 1) [(1, [frame_of (CoverTree 3 1 [leaf 3]) 0])] [] (start ()))
     = [(INT_MIN, []), (1, [frame_of (CoverTree 3 1 [leaf 3]) 0])]
   \<and> [(INT_MIN, []), (1, [frame_of (CoverTree 3 1 [leaf 3]) 0])]
       \<noteq> [(1, [frame_of (CoverTree 3 1 [leaf 3]) 0])]"
  by (simp add: eval_defs)

subsection \<open>C6: the expansion of a frame\<close>

text \<open>
  C6. When neither \<open>Rescore\<close> nor \<open>Score\<close> prunes a frame of a well-formed frontier,
  the expansion is this. The self-child gets one \<open>Score\<close> call with the frame's base
  case \<open>bc\<close> and no \<open>BaseCase\<close> call; it is admitted, with \<open>bc\<close> as its base case,
  exactly when that score is not the prune sentinel, and counted as one prune otherwise.
  Every other child gets its own \<open>BaseCase\<close> call for the query point and the child's
  point, then its own \<open>Score\<close> call with that base case (\<open>child_results\<close>); it is
  admitted exactly when its own score is not the prune sentinel (\<open>admit\<close>) and counted
  as one prune otherwise (\<open>num_pruned\<close>), whatever happens to the other children. So
  every child is either admitted as one frame or counted as one prune.
\<close>

theorem expansion_children_by_Score:
  assumes "callRescore R q (referenceNode f) (score f) st = (rs, st1)" and "rs \<noteq> DBL_MAX"
    and "(if Point (referenceNode f) \<noteq> referenceIndex f \<or> Point q \<noteq> queryIndex f
          then callBaseCase R (Point q) (Point (referenceNode f)) st1
          else (baseCase f, st1)) = (bc, st2)"
    and "callScore R q (referenceNode f) bc st2 = (sc, st3)" and "sc \<noteq> DBL_MAX"
    and "children (referenceNode f) = c0 # cs"
    and "callScore R q c0 bc st3 = (selfScore, st4)"
    and "wf_map m"
  shows "\<exists>m' st'. refrec_frame R q f m st = Inr (m', st')
      \<and> m' = admit q (zip cs (fst (child_results R q cs (rstate st4))))
                (if selfScore = DBL_MAX then m
                 else map_push (Scale c0)
                        (child_frame q c0 (Point (referenceNode f)) bc selfScore) m)
      \<and> rstate st' = snd (child_results R q cs (rstate st4))
      \<and> numPrunes st' = numPrunes st3 + (if selfScore = DBL_MAX then 1 else 0)
                          + num_pruned (fst (child_results R q cs (rstate st4)))
      \<and> calls st' = calls st3 @ ScoreCall q c0 bc
                       # child_calls q cs (map fst (fst (child_results R q cs (rstate st4))))
      \<and> (selfScore \<noteq> DBL_MAX \<longrightarrow>
           child_frame q c0 (Point (referenceNode f)) bc selfScore \<in> set (map_at (Scale c0) m'))
      \<and> num_frames m' + numPrunes st' = num_frames m + numPrunes st3 + length (c0 # cs)"
proof -
  have c4: "calls st4 = calls st3 @ [ScoreCall q c0 bc]" and n4: "numPrunes st4 = numPrunes st3"
    using callScore_calls [of R q c0 bc st3] callScore_numPrunes [of R q c0 bc st3] assms(7)
    by simp_all
  from expansion_trace [OF assms] obtain m' st' bs where
    run: "refrec_frame R q f m st = Inr (m', st')"
    and mem: "selfScore \<noteq> DBL_MAX \<longrightarrow>
           \<lparr>referenceNode = c0, score = selfScore, referenceIndex = Point (referenceNode f),
            queryIndex = Point q, baseCase = bc\<rparr> \<in> set (map_at (Scale c0) m')"
    and acc: "num_frames m' + numPrunes st' = num_frames m + numPrunes st3 + length (c0 # cs)"
    by blast
  show ?thesis
  proof (cases "selfScore = DBL_MAX")
    case True
    have "refrec_frame R q f m st = Inr (refrec_children R q cs m (prune 1 st4))"
      using assms(1-7) True by (simp add: refrec_frame_def Let_def)
    with run have eq: "(m', st') = refrec_children R q cs m (prune 1 st4)" by simp
    have "m' = admit q (zip cs (fst (child_results R q cs (rstate st4)))) m"
      and "rstate st' = snd (child_results R q cs (rstate st4))"
      and "numPrunes st' = numPrunes st3 + 1
             + num_pruned (fst (child_results R q cs (rstate st4)))"
      and "calls st' = calls st3 @ ScoreCall q c0 bc
             # child_calls q cs (map fst (fst (child_results R q cs (rstate st4))))"
      using eq c4 n4 unfolding refrec_children_exact [of R q cs m "prune 1 st4"]
      by (simp_all add: prune_def)
    with run mem acc True show ?thesis by simp
  next
    case False
    let ?e = "child_frame q c0 (Point (referenceNode f)) bc selfScore"
    have "refrec_frame R q f m st
        = Inr (refrec_children R q cs (map_push (Scale c0) ?e m) st4)"
      using assms(1-7) False by (simp add: refrec_frame_def Let_def child_frame_def)
    with run have eq: "(m', st') = refrec_children R q cs (map_push (Scale c0) ?e m) st4"
      by simp
    have "m' = admit q (zip cs (fst (child_results R q cs (rstate st4))))
                 (map_push (Scale c0) ?e m)"
      and "rstate st' = snd (child_results R q cs (rstate st4))"
      and "numPrunes st' = numPrunes st3
             + num_pruned (fst (child_results R q cs (rstate st4)))"
      and "calls st' = calls st3 @ ScoreCall q c0 bc
             # child_calls q cs (map fst (fst (child_results R q cs (rstate st4))))"
      using eq c4 n4
      unfolding refrec_children_exact [of R q cs "map_push (Scale c0) ?e m" st4]
      by simp_all
    with run mem acc False show ?thesis by (simp add: child_frame_def)
  qed
qed

text \<open>
  The theorem at a reference node with three children, a query leaf and a policy whose
  \<open>Score\<close> prunes the nodes of point 1: the self-child is admitted with the frame's
  base case and no \<open>BaseCase\<close> call, the child of point 1 is pruned and the child of
  point 2 is admitted, each after its own \<open>BaseCase\<close> and \<open>Score\<close>.
\<close>

theorem expansion_children_by_Score_witness:
  "callRescore (score_prune_point 1) (leaf 0) (referenceNode (frame_of triple_tree 0))
       (score (frame_of triple_tree 0)) (start ())
     = (0, \<lparr>rstate = (), numPrunes = 0, calls = [RescoreCall (leaf 0) triple_tree 0]\<rparr>)
   \<and> (0::real) \<noteq> DBL_MAX \<and> (1::real) \<noteq> DBL_MAX
   \<and> children (referenceNode (frame_of triple_tree 0)) = leaf 0 # [leaf 1, leaf 2]
   \<and> wf_map [(1, [frame_of triple_tree 0])]
   \<and> child_results (score_prune_point 1) (leaf 0) [leaf 1, leaf 2] ()
       = ([(1, DBL_MAX), (1, 1)], ())
   \<and> refrec_frame (score_prune_point 1) (leaf 0) (frame_of triple_tree 0)
        [(1, [frame_of triple_tree 0])] (start ())
     = Inr ([(INT_MIN,
              [\<lparr>referenceNode = leaf 0, score = 1, referenceIndex = 0, queryIndex = 0,
                baseCase = 1\<rparr>,
               \<lparr>referenceNode = leaf 2, score = 1, referenceIndex = 2, queryIndex = 0,
                baseCase = 1\<rparr>]),
             (1, [frame_of triple_tree 0])],
            \<lparr>rstate = (), numPrunes = 1,
             calls = [RescoreCall (leaf 0) triple_tree 0, ScoreCall (leaf 0) triple_tree 1,
                      ScoreCall (leaf 0) (leaf 0) 1,
                      BaseCaseCall 0 1, ScoreCall (leaf 0) (leaf 1) 1,
                      BaseCaseCall 0 2, ScoreCall (leaf 0) (leaf 2) 1]\<rparr>)
   \<and> (\<exists>m' st'.
         refrec_frame (score_prune_point 1) (leaf 0) (frame_of triple_tree 0)
           [(1, [frame_of triple_tree 0])] (start ()) = Inr (m', st')
       \<and> m' = admit (leaf 0)
                 (zip [leaf 1, leaf 2]
                    (fst (child_results (score_prune_point 1) (leaf 0) [leaf 1, leaf 2] ())))
                 (map_push (Scale (leaf 0))
                    (child_frame (leaf 0) (leaf 0) (Point (referenceNode (frame_of triple_tree 0)))
                       1 1)
                    [(1, [frame_of triple_tree 0])])
       \<and> numPrunes st'
           = 0 + 0 + num_pruned
                (fst (child_results (score_prune_point 1) (leaf 0) [leaf 1, leaf 2] ()))
       \<and> child_frame (leaf 0) (leaf 0) (Point (referenceNode (frame_of triple_tree 0))) 1 1
           \<in> set (map_at (Scale (leaf 0)) m'))"
proof -
  let ?R = "score_prune_point 1"
  let ?f = "frame_of triple_tree 0"
  let ?st1 = "\<lparr>rstate = (), numPrunes = 0, calls = [RescoreCall (leaf 0) triple_tree 0]\<rparr>"
  let ?st3 = "\<lparr>rstate = (), numPrunes = 0,
               calls = [RescoreCall (leaf 0) triple_tree 0, ScoreCall (leaf 0) triple_tree 1]\<rparr>"
  let ?st4 = "\<lparr>rstate = (), numPrunes = 0,
               calls = [RescoreCall (leaf 0) triple_tree 0, ScoreCall (leaf 0) triple_tree 1,
                        ScoreCall (leaf 0) (leaf 0) 1]\<rparr>"
  note defs = eval_defs score_prune_point_def triple_tree_def
  have h1: "callRescore ?R (leaf 0) (referenceNode ?f) (score ?f) (start ()) = (0, ?st1)"
    by (simp add: defs)
  have h2: "(0::real) \<noteq> DBL_MAX" by (simp add: DBL_MAX_neq)
  have h3: "(if Point (referenceNode ?f) \<noteq> referenceIndex ?f \<or> Point (leaf 0) \<noteq> queryIndex ?f
          then callBaseCase ?R (Point (leaf 0)) (Point (referenceNode ?f)) ?st1
          else (baseCase ?f, ?st1)) = (1, ?st1)"
    by (simp add: defs)
  have h4: "callScore ?R (leaf 0) (referenceNode ?f) 1 ?st1 = (1, ?st3)"
    by (simp add: defs)
  have h5: "(1::real) \<noteq> DBL_MAX" by (simp add: DBL_MAX_neq)
  have h6: "children (referenceNode ?f) = leaf 0 # [leaf 1, leaf 2]"
    by (simp add: defs)
  have h7: "callScore ?R (leaf 0) (leaf 0) 1 ?st3 = (1, ?st4)"
    by (simp add: defs)
  have h8: "wf_map [(1, [?f])]" by (simp add: wf_map_def keys_def)
  have res: "child_results ?R (leaf 0) [leaf 1, leaf 2] () = ([(1, DBL_MAX), (1, 1)], ())"
    by (simp add: defs)
  have run: "refrec_frame ?R (leaf 0) ?f [(1, [?f])] (start ())
     = Inr ([(INT_MIN,
              [\<lparr>referenceNode = leaf 0, score = 1, referenceIndex = 0, queryIndex = 0,
                baseCase = 1\<rparr>,
               \<lparr>referenceNode = leaf 2, score = 1, referenceIndex = 2, queryIndex = 0,
                baseCase = 1\<rparr>]),
             (1, [?f])],
            \<lparr>rstate = (), numPrunes = 1,
             calls = [RescoreCall (leaf 0) triple_tree 0, ScoreCall (leaf 0) triple_tree 1,
                      ScoreCall (leaf 0) (leaf 0) 1,
                      BaseCaseCall 0 1, ScoreCall (leaf 0) (leaf 1) 1,
                      BaseCaseCall 0 2, ScoreCall (leaf 0) (leaf 2) 1]\<rparr>)"
    by (simp add: defs)
  from expansion_children_by_Score [OF h1 h2 h3 h4 h5 h6 h7 h8]
  have "\<exists>m' st'.
         refrec_frame ?R (leaf 0) ?f [(1, [?f])] (start ()) = Inr (m', st')
       \<and> m' = admit (leaf 0)
                 (zip [leaf 1, leaf 2] (fst (child_results ?R (leaf 0) [leaf 1, leaf 2] ())))
                 (map_push (Scale (leaf 0))
                    (child_frame (leaf 0) (leaf 0) (Point (referenceNode ?f)) 1 1)
                    [(1, [?f])])
       \<and> numPrunes st'
           = 0 + 0 + num_pruned (fst (child_results ?R (leaf 0) [leaf 1, leaf 2] ()))
       \<and> child_frame (leaf 0) (leaf 0) (Point (referenceNode ?f)) 1 1
           \<in> set (map_at (Scale (leaf 0)) m')"
    using h5 by auto
  with h1 h2 h5 h6 h8 res run show ?thesis by blast
qed

subsection \<open>C7: reading the ends of the frontier\<close>

text \<open>
  C7 says that \<open>ReferenceRecursion\<close> never reads \<open>rbegin()\<close> of an empty map. The
  code breaks it: when every frame of the only bucket is pruned, the bucket is erased and
  the loop condition reads \<open>rbegin()\<close> of the empty map. \<open>PruneMapForSelfChild\<close>
  tests \<open>referenceMap.empty()\<close> after its \<open>erase\<close>; \<open>ReferenceRecursion\<close> does not.
\<close>

theorem ReferenceRecursion_empties_frontier:
  "ReferenceRecursion (range_rules [[100]] [[0], [1]] 5 2) (leaf 0)
      [(1, [\<lparr>referenceNode = pair_tree, score = 0, referenceIndex = 0, queryIndex = 0,
             baseCase = 100\<rparr>])] (start [])
    = Some (Inl EmptyMapDeref)
   \<and> Traverse_map (range_rules [[100]] [[0], [1]] 5 2) (leaf 0)
      [(1, [\<lparr>referenceNode = pair_tree, score = 0, referenceIndex = 0, queryIndex = 0,
             baseCase = 100\<rparr>])] (start [])
    = Some (Inl EmptyMapDeref)
   \<and> Traverse (range_rules [[100]] [[0], [1]] 5 2) (leaf 0) pair_tree (start [])
    = Some (Inl EmptyMapDeref)"
  by (simp add: eval_defs)

subsection \<open>C8: the buckets PruneMapForSelfChild visits\<close>

text \<open>
  C8 says that \<open>PruneMapForSelfChild\<close> visits every bucket once. The code breaks it:
  after the bucket of scale 2 is erased, \<open>++it\<close> steps over the bucket of scale 1, whose
  frame is neither rescored nor updated; and when the bucket of the least key is erased
  while a greater one stays, \<open>++it\<close> decrements \<open>begin()\<close>.
\<close>

theorem PruneMapForSelfChild_skips_bucket:
  "PruneMapForSelfChild (prune_point 7) (leaf 0)
      [(INT_MIN, []), (1, [frame_of (CoverTree 3 1 [leaf 3]) 5]),
       (2, [frame_of (CoverTree 7 2 [leaf 7]) 5])] (start ())
    = Inr ([(INT_MIN, []), (1, [frame_of (CoverTree 3 1 [leaf 3]) 5])],
           \<lparr>rstate = (), numPrunes = 1,
            calls = [RescoreCall (leaf 0) (CoverTree 7 2 [leaf 7]) 0]\<rparr>)
   \<and> PruneMapForSelfChild (prune_point 7) (leaf 0)
      [(1, [frame_of (CoverTree 7 1 [leaf 7]) 5]),
       (2, [frame_of (CoverTree 3 2 [leaf 3]) 5])] (start ())
    = Inl DecrementBegin"
  by (simp add: eval_defs)

subsection \<open>C9: the empty frontier\<close>

text \<open>
  C9. If the reference frontier passed to the map-based \<open>Traverse\<close> has no entries, the
  call returns at once: the traverser's state is unchanged, so no \<open>BaseCase\<close>, \<open>Score\<close>
  or \<open>Rescore\<close> call was made, the prune counter did not move and no query child was
  visited.
\<close>

theorem Traverse_empty_frontier:
  "Traverse_map R queryNode [] st = Some (Inr st)"
  by (simp add: Traverse_map.simps)

subsection \<open>C10: the leaf size\<close>

text \<open>
  C10, as amended: the constructors do not check the leaf size. In naive mode they
  succeed for every leaf size and build no tree (the tree pointers are left as the
  initialiser list leaves them); otherwise they fail exactly when a tree constructor
  fails for the leaf size passed on to it, with that constructor's error: the one of the
  reference tree, or, in dual-tree mode with a query set, the one of the query tree once
  the reference tree is built.
\<close>

theorem RangeSearch_ctor_leafSize:
  "(naive_arg \<longrightarrow>
      (\<exists>rs. RangeSearch_ctor build refSet qSet naive_arg singleMode_arg leafSize metric_arg
               = Inr rs
           \<and> naive rs \<and> \<not> treeOwner rs
           \<and> referenceTree rs = Uninitialised \<and> queryTree rs = Uninitialised)
    \<and> (\<exists>rs. RangeSearch_ctor_ref build refSet naive_arg singleMode_arg leafSize metric_arg
               = Inr rs
           \<and> naive rs \<and> \<not> treeOwner rs
           \<and> referenceTree rs = Uninitialised \<and> queryTree rs = Null))
   \<and> (\<not> naive_arg \<longrightarrow>
        ((RangeSearch_ctor build refSet qSet naive_arg singleMode_arg leafSize metric_arg
            = Inl e)
         = (build refSet leafSize = Inl e
            \<or> (\<not> singleMode_arg
               \<and> (\<exists>rt rdata rmap. build refSet leafSize = Inr (rt, rdata, rmap))
               \<and> build qSet leafSize = Inl e)))
      \<and> ((RangeSearch_ctor_ref build refSet naive_arg singleMode_arg leafSize metric_arg
            = Inl e)
         = (build refSet leafSize = Inl e)))"
proof (cases naive_arg)
  case True
  then show ?thesis
    by (simp add: RangeSearch_ctor_def RangeSearch_ctor_ref_def)
next
  case False
  have one: "(RangeSearch_ctor build refSet qSet naive_arg singleMode_arg leafSize metric_arg
            = Inl e)
         = (build refSet leafSize = Inl e
            \<or> (\<not> singleMode_arg
               \<and> (\<exists>rt rdata rmap. build refSet leafSize = Inr (rt, rdata, rmap))
               \<and> build qSet leafSize = Inl e))"
  proof (cases "build refSet leafSize")
    case (Inl e')
    with False show ?thesis by (simp add: RangeSearch_ctor_def Let_def)
  next
    case (Inr r)
    obtain rt rdata rmap where r: "r = (rt, rdata, rmap)" by (cases r)
    show ?thesis
    proof (cases singleMode_arg)
      case True
      with False Inr r show ?thesis by (simp add: RangeSearch_ctor_def Let_def)
    next
      case nsm: False
      show ?thesis
      proof (cases "build qSet leafSize")
        case (Inl e')
        with False nsm Inr r show ?thesis by (simp add: RangeSearch_ctor_def Let_def)
      next
        case inr: (Inr r')
        obtain qt qdata qmap where "r' = (qt, qdata, qmap)" by (cases r')
        with False nsm Inr r inr show ?thesis by (simp add: RangeSearch_ctor_def Let_def)
      qed
    qed
  qed
  have two: "(RangeSearch_ctor_ref build refSet naive_arg singleMode_arg leafSize metric_arg
            = Inl e)
         = (build refSet leafSize = Inl e)"
  proof (cases "build refSet leafSize")
    case (Inl e')
    with False show ?thesis by (simp add: RangeSearch_ctor_ref_def)
  next
    case (Inr r)
    obtain rt rdata rmap where "r = (rt, rdata, rmap)" by (cases r)
    with False Inr show ?thesis by (simp add: RangeSearch_ctor_ref_def Let_def)
  qed
  from False one two show ?thesis by simp
qed

text \<open>
  The theorem at the leaf size zero and a tree constructor that rejects it: the naive
  object is made; the dual-tree one fails with the tree constructor's error and with no
  other, and it is made for the leaf size one.
\<close>

theorem RangeSearch_ctor_leafSize_witness:
  "(\<exists>rs :: unit RangeSearch.
       RangeSearch_ctor strict_builder [[0], [1]] [[100]] True False 0 () = Inr rs
     \<and> naive rs \<and> \<not> treeOwner rs
     \<and> referenceTree rs = Uninitialised \<and> queryTree rs = Uninitialised)
   \<and> (RangeSearch_ctor strict_builder [[0], [1]] [[100]] False False 0 ()
         :: string + unit RangeSearch) = Inl ''leaf size''
   \<and> strict_builder [[0], [1]] 0 = Inl ''leaf size''
   \<and> (RangeSearch_ctor strict_builder [[0], [1]] [[100]] False False 1 ()
         :: string + unit RangeSearch) \<noteq> Inl ''leaf size''
   \<and> strict_builder [[0], [1]] 1 \<noteq> Inl ''leaf size''
   \<and> strict_builder [[100]] 1 \<noteq> Inl ''leaf size''"
proof -
  have b0: "strict_builder [[0], [1]] 0 = Inl ''leaf size''"
    by (simp add: strict_builder_def)
  have b1: "strict_builder [[0], [1]] 1 \<noteq> Inl ''leaf size''"
    "strict_builder [[100]] 1 \<noteq> Inl ''leaf size''"
    by (simp_all add: strict_builder_def)
  note n = RangeSearch_ctor_leafSize [where build = strict_builder and refSet = "[[0], [1]]"
      and qSet = "[[100]]" and naive_arg = True and singleMode_arg = False and leafSize = 0
      and metric_arg = "()"]
  note f0 = RangeSearch_ctor_leafSize [where build = strict_builder and refSet = "[[0], [1]]"
      and qSet = "[[100]]" and naive_arg = False and singleMode_arg = False and leafSize = 0
      and metric_arg = "()" and e = "''leaf size''"]
  note f1 = RangeSearch_ctor_leafSize [where build = strict_builder and refSet = "[[0], [1]]"
      and qSet = "[[100]]" and naive_arg = False and singleMode_arg = False and leafSize = 1
      and metric_arg = "()" and e = "''leaf size''"]
  from n have "\<exists>rs :: unit RangeSearch.
       RangeSearch_ctor strict_builder [[0], [1]] [[100]] True False 0 () = Inr rs
     \<and> naive rs \<and> \<not> treeOwner rs
     \<and> referenceTree rs = Uninitialised \<and> queryTree rs = Uninitialised"
    by blast
  moreover from f0 b0 have "(RangeSearch_ctor strict_builder [[0], [1]] [[100]] False False 0 ()
         :: string + unit RangeSearch) = Inl ''leaf size''"
    by blast
  moreover from f1 b1 have "(RangeSearch_ctor strict_builder [[0], [1]] [[100]] False False 1 ()
         :: string + unit RangeSearch) \<noteq> Inl ''leaf size''"
    by blast
  ultimately show ?thesis using b0 b1 by blast
qed

text \<open>
  C10 as stated (a leaf size of zero fails) fails in naive mode, also with a tree
  constructor that rejects zero.
\<close>

theorem RangeSearch_ctor_leaf_size_zero_counterexample:
  "RangeSearch_ctor strict_builder [[0], [1]] [[100]] True False 0 ()
     = Inr (\<lparr>referenceCopy = [[0], [1]], queryCopy = [[100]],
                 referenceSet = [[0], [1]], querySet = [[100]],
                 referenceTree = Uninitialised, queryTree = Uninitialised,
                 oldFromNewReferences = [], oldFromNewQueries = [],
                 treeOwner = False, hasQuerySet = True,
                 naive = True, singleMode = False,
                 metric = (), numPrunes_rs = 0\<rparr> :: unit RangeSearch)"
  by (simp add: RangeSearch_ctor_def)

end
